theory Spec2Isabelle
  imports Main "HOL-Library.Multiset" "HOL-Library.AList" "HOL-Library.Sublist"
begin

section \<open>Strings and containers of the host language\<close>

text \<open>
  A string is a list of code units; \<open>char\<close> covers the code units U+0000 to U+00FF.
  \<open>str_includes s x\<close> is \<^verbatim>\<open>s.includes(x)\<close>: \<open>x\<close> occurs in \<open>s\<close> as a contiguous,
  case-sensitive substring.
\<close>

definition str_includes :: "string \<Rightarrow> string \<Rightarrow> bool" where
  "str_includes s x = sublist x s"

text \<open>
  \<^verbatim>\<open>Map<string, V>\<close> keeps its keys in insertion order: an association list with
  distinct keys. \<open>Map_get\<close> is \<^verbatim>\<open>get\<close> (\<open>None\<close> for \<^verbatim>\<open>undefined\<close>), \<open>Map_set\<close> is
  \<^verbatim>\<open>set\<close>: an existing key keeps its position, a new key goes last.
\<close>

type_synonym ('k, 'v) Map = "('k \<times> 'v) list"

definition Map_get :: "('k, 'v) Map \<Rightarrow> 'k \<Rightarrow> 'v option" where
  "Map_get m k = map_of m k"

definition Map_set :: "'k \<Rightarrow> 'v \<Rightarrow> ('k, 'v) Map \<Rightarrow> ('k, 'v) Map" where
  "Map_set k v m = AList.update k v m"

definition Map_values :: "('k, 'v) Map \<Rightarrow> 'v list" where
  "Map_values m = map snd m"

text \<open>
  \<^verbatim>\<open>Array.prototype.sort(compareFn)\<close> sorts in place and is stable: \<open>a\<close> stays before
  \<open>b\<close> unless \<open>compareFn a b > 0\<close>. For a consistent comparator the result of a
  stable sort is unique, so insertion from the right is a model of it.
\<close>

primrec insert_by :: "('a \<Rightarrow> 'a \<Rightarrow> int) \<Rightarrow> 'a \<Rightarrow> 'a list \<Rightarrow> 'a list" where
  "insert_by cmp x [] = [x]"
| "insert_by cmp x (y # ys) =
     (if cmp x y \<le> 0 then x # y # ys else y # insert_by cmp x ys)"

definition Array_sort :: "('a \<Rightarrow> 'a \<Rightarrow> int) \<Rightarrow> 'a list \<Rightarrow> 'a list" where
  "Array_sort cmp xs = foldr (insert_by cmp) xs []"

section \<open>The module collaboration service\<close>

subsection \<open>Data model\<close>

text \<open>The string literal unions \<^verbatim>\<open>'high' | 'medium' | 'low'\<close> and
  \<^verbatim>\<open>'sync' | 'contrast' | 'enhance' | 'balance'\<close>.\<close>

datatype level = High | Medium | Low

datatype suggestion_type = Sync | Contrast | Enhance | Balance

text \<open>
  The service exists in two variants with the same data model and the same methods: one
  for the modules casting and visual, one for the modules sound and visual. They differ in
  the declared type of the module (\<^verbatim>\<open>'casting' | 'visual'\<close>, \<^verbatim>\<open>'sound' | 'visual'\<close>), in the
  two keys the analysis reads and in its rules. The module of an insight is the key of
  the insight store, a string. The payload \<^verbatim>\<open>sharedData?: any\<close> is a type parameter.
\<close>

record 'd ModuleInsight =
  module :: string
  insight :: string
  relevance :: level
  actionable :: bool
  sharedData :: "'d option"

record CrossModuleSuggestion =
  type :: suggestion_type
  modules :: "string list"
  suggestion :: string
  rationale :: string
  priority :: level

record 'd ModuleCollaborationService =
  insights :: "(string, 'd ModuleInsight list) Map"
  crossModuleSuggestions :: "CrossModuleSuggestion list"

text \<open>The state of a freshly constructed service (\<^verbatim>\<open>getInstance\<close> on first use).\<close>

definition getInstance :: "'d ModuleCollaborationService" where
  "getInstance = \<lparr> insights = [], crossModuleSuggestions = [] \<rparr>"

subsection \<open>The two rules of the casting and visual variant\<close>

text \<open>A rule returns \<^verbatim>\<open>null\<close> or an object with the fields suggestion, rationale and
  priority, in this order.\<close>

type_synonym RuleResult = "string \<times> string \<times> level"

definition findVisualCastingBalance ::
  "'d ModuleInsight list \<Rightarrow> 'd ModuleInsight list \<Rightarrow> RuleResult option" where
  "findVisualCastingBalance visualInsights castingInsights =
     (let warmVisual =
            find (\<lambda>i. str_includes (insight i) ''warm'' \<or> str_includes (insight i) ''golden'')
              visualInsights;
          seriousCharacter =
            find (\<lambda>i. str_includes (insight i) ''serious'' \<or> str_includes (insight i) ''professional'')
              castingInsights
      in if warmVisual \<noteq> None \<and> seriousCharacter \<noteq> None
         then Some (''Balance serious character presence with warm visual color grading'',
                    ''Warm colors can soften serious characters and create emotional depth'',
                    Medium)
         else None)"

definition findCastingVisualAlignment ::
  "'d ModuleInsight list \<Rightarrow> 'd ModuleInsight list \<Rightarrow> RuleResult option" where
  "findCastingVisualAlignment visualInsights castingInsights =
     (let themes =
            filter (\<lambda>i. str_includes (insight i) ''theme'' \<or> str_includes (insight i) ''emotion'')
              castingInsights @
            filter (\<lambda>i. str_includes (insight i) ''theme'' \<or> str_includes (insight i) ''emotion'')
              visualInsights
      in if length themes \<ge> 2
         then Some (''Strengthen thematic coherence between visual storytelling and casting choices'',
                    ''Both modules highlight compatible emotional or thematic directions worth emphasizing'',
                    High)
         else None)"

subsection \<open>Operations of the casting and visual variant\<close>

definition spread :: "suggestion_type \<Rightarrow> string list \<Rightarrow> RuleResult \<Rightarrow> CrossModuleSuggestion" where
  "spread t ms r =
     \<lparr> type = t, modules = ms, suggestion = fst r, rationale = fst (snd r),
       priority = snd (snd r) \<rparr>"

definition analyzeCrossModuleSynergies ::
  "'d ModuleCollaborationService \<Rightarrow> 'd ModuleCollaborationService" where
  "analyzeCrossModuleSynergies this =
     (let castingInsights = (case Map_get (insights this) ''casting'' of Some l \<Rightarrow> l | None \<Rightarrow> []);
          visualInsights = (case Map_get (insights this) ''visual'' of Some l \<Rightarrow> l | None \<Rightarrow> []);
          s0 = [];
          s1 = (case findVisualCastingBalance visualInsights castingInsights of
                  Some r \<Rightarrow> s0 @ [spread Balance [''visual'', ''casting''] r]
                | None \<Rightarrow> s0);
          s2 = (case findCastingVisualAlignment visualInsights castingInsights of
                  Some r \<Rightarrow> s1 @ [spread Enhance [''visual'', ''casting''] r]
                | None \<Rightarrow> s1)
      in this\<lparr> crossModuleSuggestions := s2 \<rparr>)"

text \<open>The default of the parameter \<^verbatim>\<open>relevance\<close> applies when the caller leaves it out
  (\<open>None\<close>).\<close>

definition addModuleInsight ::
  "string \<Rightarrow> string \<Rightarrow> level option \<Rightarrow> 'd option \<Rightarrow>
   'd ModuleCollaborationService \<Rightarrow> 'd ModuleCollaborationService" where
  "addModuleInsight m text rel shared this =
     (let newInsight =
            \<lparr> module = m, insight = text,
              relevance = (case rel of Some r \<Rightarrow> r | None \<Rightarrow> Medium),
              actionable = True, sharedData = shared \<rparr>;
          moduleInsights = (case Map_get (insights this) m of Some l \<Rightarrow> l | None \<Rightarrow> []);
          moduleInsights = moduleInsights @ [newInsight]
      in analyzeCrossModuleSynergies
           (this\<lparr> insights := Map_set m moduleInsights (insights this) \<rparr>))"

definition priorityOrder :: "level \<Rightarrow> int" where
  "priorityOrder p = (case p of High \<Rightarrow> 3 | Medium \<Rightarrow> 2 | Low \<Rightarrow> 1)"

definition compareFn :: "CrossModuleSuggestion \<Rightarrow> CrossModuleSuggestion \<Rightarrow> int" where
  "compareFn a b = priorityOrder (priority b) - priorityOrder (priority a)"

text \<open>\<^verbatim>\<open>getCrossModuleSuggestions\<close> sorts the stored array in place and returns it: the
  result is the returned list and the service with the sorted list stored.\<close>

definition getCrossModuleSuggestions ::
  "'d ModuleCollaborationService \<Rightarrow> CrossModuleSuggestion list \<times> 'd ModuleCollaborationService" where
  "getCrossModuleSuggestions this =
     (let sorted = Array_sort compareFn (crossModuleSuggestions this)
      in (sorted, this\<lparr> crossModuleSuggestions := sorted \<rparr>))"

definition getModuleInsights :: "'d ModuleCollaborationService \<Rightarrow> string \<Rightarrow> 'd ModuleInsight list" where
  "getModuleInsights this m = (case Map_get (insights this) m of Some l \<Rightarrow> l | None \<Rightarrow> [])"

definition getAllInsights :: "'d ModuleCollaborationService \<Rightarrow> 'd ModuleInsight list" where
  "getAllInsights this = concat (Map_values (insights this))"

definition clearInsights :: "'d ModuleCollaborationService \<Rightarrow> 'd ModuleCollaborationService" where
  "clearInsights this = this\<lparr> insights := [], crossModuleSuggestions := [] \<rparr>"

record CoherenceReport =
  score :: int
  strengths :: "string list"
  weaknesses :: "string list"
  recommendations :: "string list"

definition analyzeProjectCoherence ::
  "'d ModuleCollaborationService \<Rightarrow> CoherenceReport \<times> 'd ModuleCollaborationService" where
  "analyzeProjectCoherence this =
     (let allInsights = getAllInsights this;
          (suggestions, this) = getCrossModuleSuggestions this;
          coherenceScore = 50;
          highRelevanceInsights = int (length (filter (\<lambda>i. relevance i = High) allInsights));
          coherenceScore = coherenceScore + highRelevanceInsights * 10;
          highPrioritySuggestions = int (length (filter (\<lambda>s. priority s = High) suggestions));
          lowPrioritySuggestions = int (length (filter (\<lambda>s. priority s = Low) suggestions));
          coherenceScore = coherenceScore + highPrioritySuggestions * 5;
          coherenceScore = coherenceScore - lowPrioritySuggestions * 3;
          coherenceScore = max 0 (min 100 coherenceScore);
          w0 = [];
          w1 = (if length suggestions = 0
                then w0 @ [''Limited cross-module interaction detected''] else w0);
          w2 = (if highPrioritySuggestions > 2
                then w1 @ [''Multiple high-priority improvements suggested''] else w1)
      in (\<lparr> score = coherenceScore,
            strengths = [''Multiple AI modules providing insights'',
                         ''Cross-module collaboration active'',
                         ''Diverse perspectives enhancing storytelling''],
            weaknesses = w2,
            recommendations = map suggestion (take 3 suggestions) \<rparr>,
          this))"

text \<open>
  The states the service can be in: the fresh instance, and what the state-changing
  public methods make of a reachable state. \<^verbatim>\<open>getModuleInsights\<close>, \<^verbatim>\<open>getAllInsights\<close> and
  \<^verbatim>\<open>generateCollaborationTips\<close> change nothing. Callers are taken not to write to the
  arrays the getters hand out.
\<close>

inductive reachable :: "'d ModuleCollaborationService \<Rightarrow> bool" where
  reach_init: "reachable getInstance"
| reach_add: "reachable this \<Longrightarrow> reachable (addModuleInsight m text rel shared this)"
| reach_get: "reachable this \<Longrightarrow> reachable (snd (getCrossModuleSuggestions this))"
| reach_clear: "reachable this \<Longrightarrow> reachable (clearInsights this)"
| reach_coherence: "reachable this \<Longrightarrow> reachable (snd (analyzeProjectCoherence this))"

text \<open>The order that \<^verbatim>\<open>compareFn\<close> sorts by: a higher rank comes first.\<close>

definition by_rank :: "CrossModuleSuggestion \<Rightarrow> CrossModuleSuggestion \<Rightarrow> bool" where
  "by_rank a b = (priorityOrder (priority a) \<ge> priorityOrder (priority b))"

subsection \<open>The sound and visual variant\<close>

text \<open>
  The variant for the modules sound and visual has its own two rules and its own
  analysis; \<^verbatim>\<open>addModuleInsight\<close> differs only in the analysis it triggers. Its other
  methods are those above, word for word. The names that both variants use carry the
  suffix \<open>_sv\<close> here.
\<close>

definition findSoundVisualSync ::
  "'d ModuleInsight list \<Rightarrow> 'd ModuleInsight list \<Rightarrow> RuleResult option" where
  "findSoundVisualSync soundInsights visualInsights =
     (let soundMood =
            find (\<lambda>i. str_includes (insight i) ''mood'' \<or> str_includes (insight i) ''atmosphere'')
              soundInsights;
          visualMood =
            find (\<lambda>i. str_includes (insight i) ''lighting'' \<or> str_includes (insight i) ''color'')
              visualInsights
      in if soundMood \<noteq> None \<and> visualMood \<noteq> None
         then Some (''Align sound atmosphere with visual mood for cohesive storytelling'',
                    ''Both sound and visual elements suggest similar atmospheric qualities'',
                    High)
         else
           (let soundEnergy =
                  find (\<lambda>i. str_includes (insight i) ''energy'' \<or>
                            str_includes (insight i) ''intensity'')
                    soundInsights;
                visualEnergy =
                  find (\<lambda>i. str_includes (insight i) ''movement'' \<or>
                            str_includes (insight i) ''camera'')
                    visualInsights
            in if soundEnergy \<noteq> None \<and> visualEnergy \<noteq> None
               then Some (''Synchronize audio intensity with visual camera movement'',
                          ''Both elements indicate matching energy levels for dynamic sequences'',
                          High)
               else None))"

definition findSoundVisualEnhancement ::
  "'d ModuleInsight list \<Rightarrow> 'd ModuleInsight list \<Rightarrow> RuleResult option" where
  "findSoundVisualEnhancement soundInsights visualInsights =
     (let themes =
            filter (\<lambda>i. str_includes (insight i) ''theme'' \<or> str_includes (insight i) ''emotion'')
              soundInsights @
            filter (\<lambda>i. str_includes (insight i) ''theme'' \<or> str_includes (insight i) ''emotion'')
              visualInsights
      in if length themes \<ge> 2
         then Some (''Strengthen thematic coherence between audio and visual storytelling'',
                    ''Both sound and visual modules highlight similar thematic or emotional cues'',
                    High)
         else None)"

definition analyzeCrossModuleSynergies_sv ::
  "'d ModuleCollaborationService \<Rightarrow> 'd ModuleCollaborationService" where
  "analyzeCrossModuleSynergies_sv this =
     (let soundInsights = (case Map_get (insights this) ''sound'' of Some l \<Rightarrow> l | None \<Rightarrow> []);
          visualInsights = (case Map_get (insights this) ''visual'' of Some l \<Rightarrow> l | None \<Rightarrow> []);
          s0 = [];
          s1 = (case findSoundVisualSync soundInsights visualInsights of
                  Some r \<Rightarrow> s0 @ [spread Sync [''sound'', ''visual''] r]
                | None \<Rightarrow> s0);
          s2 = (case findSoundVisualEnhancement soundInsights visualInsights of
                  Some r \<Rightarrow> s1 @ [spread Enhance [''sound'', ''visual''] r]
                | None \<Rightarrow> s1)
      in this\<lparr> crossModuleSuggestions := s2 \<rparr>)"

definition addModuleInsight_sv ::
  "string \<Rightarrow> string \<Rightarrow> level option \<Rightarrow> 'd option \<Rightarrow>
   'd ModuleCollaborationService \<Rightarrow> 'd ModuleCollaborationService" where
  "addModuleInsight_sv m text rel shared this =
     (let newInsight =
            \<lparr> module = m, insight = text,
              relevance = (case rel of Some r \<Rightarrow> r | None \<Rightarrow> Medium),
              actionable = True, sharedData = shared \<rparr>;
          moduleInsights = (case Map_get (insights this) m of Some l \<Rightarrow> l | None \<Rightarrow> []);
          moduleInsights = moduleInsights @ [newInsight]
      in analyzeCrossModuleSynergies_sv
           (this\<lparr> insights := Map_set m moduleInsights (insights this) \<rparr>))"

section \<open>The enhanced generative service\<close>

subsection \<open>Character classes\<close>

text \<open>The classes the sanitizer's regular expressions use, over the code units U+0000 to
  U+00FF. \<open>is_word\<close> is \<^verbatim>\<open>\w\<close>, \<open>is_token\<close> is \<^verbatim>\<open>[0-9A-Za-z\-_]\<close>, \<open>is_space\<close> is \<^verbatim>\<open>\s\<close>
  (tab, line feed, vertical tab, form feed, carriage return, space, no-break space).\<close>

definition is_digit :: "char \<Rightarrow> bool" where
  "is_digit c = (c \<in> set ''0123456789'')"

definition is_upper :: "char \<Rightarrow> bool" where
  "is_upper c = (c \<in> set ''ABCDEFGHIJKLMNOPQRSTUVWXYZ'')"

definition is_lower :: "char \<Rightarrow> bool" where
  "is_lower c = (c \<in> set ''abcdefghijklmnopqrstuvwxyz'')"

definition is_word :: "char \<Rightarrow> bool" where
  "is_word c = (is_digit c \<or> is_upper c \<or> is_lower c \<or> c = CHR ''_'')"

definition is_token :: "char \<Rightarrow> bool" where
  "is_token c = (is_digit c \<or> is_upper c \<or> is_lower c \<or> c = CHR ''-'' \<or> c = CHR ''_'')"

definition is_token_dot :: "char \<Rightarrow> bool" where
  "is_token_dot c = (is_token c \<or> c = CHR ''.'')"

definition is_space :: "char \<Rightarrow> bool" where
  "is_space c = (c \<in> {CHR 0x09, CHR 0x0A, CHR 0x0B, CHR 0x0C, CHR 0x0D, CHR '' '', CHR 0xA0})"

definition is_quote :: "char \<Rightarrow> bool" where
  "is_quote c = (c = CHR 0x22 \<or> c = CHR 0x27)"

definition is_colon_eq :: "char \<Rightarrow> bool" where
  "is_colon_eq c = (c = CHR '':'' \<or> c = CHR ''='')"

definition is_upper_underscore :: "char \<Rightarrow> bool" where
  "is_upper_underscore c = (is_upper c \<or> c = CHR ''_'')"

text \<open>Under the flag \<^verbatim>\<open>i\<close> two code units match when their upper-case forms agree; in this
  range only the ASCII letters have another case that the patterns can reach.\<close>

definition toUpperCase :: "char \<Rightarrow> char" where
  "toUpperCase c =
     (case map_of (zip ''abcdefghijklmnopqrstuvwxyz'' ''ABCDEFGHIJKLMNOPQRSTUVWXYZ'') c of
        Some u \<Rightarrow> u | None \<Rightarrow> c)"

subsection \<open>Regular expressions\<close>

text \<open>
  The patterns of the sanitizer are sequences of single-character items: one character of
  a class, an optional one (\<^verbatim>\<open>?\<close>), a greedy repetition with a minimum (\<^verbatim>\<open>*\<close>, \<^verbatim>\<open>+\<close>,
  \<^verbatim>\<open>{n,}\<close>) and the word boundary \<^verbatim>\<open>\b\<close>. \<open>rmatch re p s\<close> matches \<open>re\<close> at the start of
  \<open>s\<close>, where \<open>p\<close> is the character before it (none at the start of the text), and
  returns the length of the match. A quantifier takes as much as it can and gives back
  one character at a time when the rest of the pattern fails, as a backtracking matcher
  does.
\<close>

datatype atom =
    One "char \<Rightarrow> bool"
  | Opt "char \<Rightarrow> bool"
  | Many nat "char \<Rightarrow> bool"
  | WordB

definition lit :: "string \<Rightarrow> atom list" where
  "lit s = map (\<lambda>c. One (\<lambda>x. x = c)) s"

definition lit_i :: "string \<Rightarrow> atom list" where
  "lit_i s = map (\<lambda>c. One (\<lambda>x. toUpperCase x = toUpperCase c)) s"

definition is_word_at :: "char option \<Rightarrow> bool" where
  "is_word_at p = (case p of None \<Rightarrow> False | Some c \<Rightarrow> is_word c)"

definition first_char :: "string \<Rightarrow> char option" where
  "first_char s = (case s of [] \<Rightarrow> None | c # _ \<Rightarrow> Some c)"

fun rmatch :: "atom list \<Rightarrow> char option \<Rightarrow> string \<Rightarrow> nat option" where
  "rmatch [] p s = Some 0"
| "rmatch (One P # as) p [] = None"
| "rmatch (One P # as) p (c # cs) =
     (if P c then map_option Suc (rmatch as (Some c) cs) else None)"
| "rmatch (Opt P # as) p [] = rmatch as p []"
| "rmatch (Opt P # as) p (c # cs) =
     (if P c
      then (case rmatch as (Some c) cs of
              Some n \<Rightarrow> Some (Suc n)
            | None \<Rightarrow> rmatch as p (c # cs))
      else rmatch as p (c # cs))"
| "rmatch (Many n P # as) p [] = (if n = 0 then rmatch as p [] else None)"
| "rmatch (Many n P # as) p (c # cs) =
     (if P c
      then (case rmatch (Many (n - 1) P # as) (Some c) cs of
              Some k \<Rightarrow> Some (Suc k)
            | None \<Rightarrow> if n = 0 then rmatch as p (c # cs) else None)
      else if n = 0 then rmatch as p (c # cs) else None)"
| "rmatch (WordB # as) p s =
     (if is_word_at p \<noteq> is_word_at (first_char s) then rmatch as p s else None)"

text \<open>
  \<^verbatim>\<open>s.replace(re, r)\<close> for a pattern with the flag \<^verbatim>\<open>g\<close> and a replacement text without
  \<^verbatim>\<open>$\<close>: the text is scanned from the left; where the pattern matches, the match is
  replaced and the scan goes on behind it (one character further after an empty match);
  elsewhere the character is kept.
\<close>

function replace_from :: "atom list \<Rightarrow> string \<Rightarrow> char option \<Rightarrow> string \<Rightarrow> string" where
  "replace_from re r p [] = (case rmatch re p [] of Some n \<Rightarrow> r | None \<Rightarrow> [])"
| "replace_from re r p (c # cs) =
     (case rmatch re p (c # cs) of
        None \<Rightarrow> c # replace_from re r (Some c) cs
      | Some n \<Rightarrow>
          if n = 0 then r @ c # replace_from re r (Some c) cs
          else r @ replace_from re r (Some (last (take n (c # cs)))) (drop n (c # cs)))"
  by pat_completeness auto
termination
  by (relation "measure (\<lambda>(re, r, p, s). length s)") auto

definition replace :: "atom list \<Rightarrow> string \<Rightarrow> string \<Rightarrow> string" where
  "replace re r s = replace_from re r None s"

text \<open>\<^verbatim>\<open>s.split(sep)\<close> for a separator of one character; the result is never empty.\<close>

fun split :: "char \<Rightarrow> string \<Rightarrow> string list" where
  "split sep [] = [[]]"
| "split sep (c # cs) =
     (if c = sep then [] # split sep cs
      else (case split sep cs of
              [] \<Rightarrow> [[c]]
            | x # xs \<Rightarrow> (c # x) # xs))"

subsection \<open>\<^verbatim>\<open>sanitizeErrorMessage\<close>\<close>

text \<open>
  The values the sanitizer turns into text: an \<^verbatim>\<open>Error\<close> with its message and, when it has
  one, its stack, or any other value, given by the string \<^verbatim>\<open>String(error)\<close> makes of it.
  \<open>sanitizeErrorMessage\<close> is the function on these values; the values on which the
  conversion itself throws come with the wrappers below.
\<close>

datatype thrown = Error string "string option" | Thrown string

definition newline :: char where
  "newline = CHR 0x0A"

text \<open>The five patterns, in the order the sanitizer applies them.\<close>

definition re_google_key :: "atom list" where
  "re_google_key = lit ''AIza'' @ replicate 35 (One is_token)"

definition re_api_key :: "atom list" where
  "re_api_key =
     lit_i ''api'' @ [Opt (\<lambda>c. c = CHR ''_'' \<or> c = CHR ''-'')] @ lit_i ''key'' @
     [Opt is_quote, Many 0 is_space, One is_colon_eq, Many 0 is_space, Opt is_quote,
      Many 32 is_token]"

definition re_bearer :: "atom list" where
  "re_bearer =
     lit_i ''authorization'' @
     [Opt is_quote, Many 0 is_space, One is_colon_eq, Many 0 is_space, Opt is_quote] @
     lit_i ''Bearer'' @ [Many 1 is_space, Many 1 is_token_dot]"

definition re_long_token :: "atom list" where
  "re_long_token = [WordB, Many 40 is_token, WordB]"

definition re_env_var :: "atom list" where
  "re_env_var = lit ''process.env.'' @ [Many 1 is_upper_underscore]"

definition sanitizeErrorMessage :: "thrown \<Rightarrow> string" where
  "sanitizeErrorMessage error =
     (let errorStr = (case error of Error message stack \<Rightarrow> message | Thrown s \<Rightarrow> s);
          errorStack = (case error of
                          Error message stack \<Rightarrow> (case stack of Some s \<Rightarrow> s | None \<Rightarrow> [])
                        | Thrown s \<Rightarrow> []);
          fullErrorText = errorStr @ [newline] @ errorStack;
          sanitized =
            (case split newline
                    (replace re_env_var ''[ENV_VAR]''
                      (replace re_long_token ''[REDACTED_TOKEN]''
                        (replace re_bearer ''Authorization: Bearer [REDACTED]''
                          (replace re_api_key ''api_key: [REDACTED]''
                            (replace re_google_key ''[API_KEY]'' fullErrorText))))) of
               [] \<Rightarrow> []
             | x # xs \<Rightarrow> x)
      in sanitized)"

subsection \<open>The wrappers around the provider\<close>

text \<open>
  A \<^verbatim>\<open>catch\<close> block receives a value of type \<^verbatim>\<open>unknown\<close>. \<^verbatim>\<open>sanitizeErrorMessage\<close> turns
  it into text with \<^verbatim>\<open>String(error)\<close> and a template literal. For some values that
  conversion throws a \<^verbatim>\<open>TypeError\<close>: an object without \<^verbatim>\<open>toString\<close> such as
  \<^verbatim>\<open>Object.create(null)\<close>, or an \<^verbatim>\<open>Error\<close> whose message is a symbol; and a \<^verbatim>\<open>toString\<close>
  of the value's own may throw anything. \<open>Converts t\<close> is a value that converts,
  \<open>NoString r\<close> one whose conversion throws \<open>r\<close>. \<open>sanitizeErrorMessage_call\<close> is the call
  of the sanitizer on any caught value: it returns the sanitized text or throws.
\<close>

datatype rejection = TypeError | ThrownByConversion

datatype caught = Converts thrown | NoString rejection

definition sanitizeErrorMessage_call :: "caught \<Rightarrow> rejection + string" where
  "sanitizeErrorMessage_call error =
     (case error of
        Converts t \<Rightarrow> Inr (sanitizeErrorMessage t)
      | NoString r \<Rightarrow> Inl r)"

text \<open>
  The provider functions are imported from another module; the wrappers take them as
  parameters. A call of the provider either resolves with a value (\<open>Inr\<close>) or fails with
  a thrown value (\<open>Inl\<close>). A wrapper either resolves with a value or rejects; its
  \<^verbatim>\<open>catch\<close> block calls the sanitizer outside any \<^verbatim>\<open>try\<close>, so what the sanitizer
  throws leaves the wrapper. Mood tags are strings; the suggestion types of the provider
  are type parameters. A wrapper also writes to the console: the first component of its
  result is the list of the lines written, each a label and a message.
\<close>

type_synonym console = "(string \<times> string) list"

function digits_of :: "nat \<Rightarrow> string" where
  "digits_of n =
     (if n < 10 then [''0123456789'' ! n]
      else digits_of (n div 10) @ [''0123456789'' ! (n mod 10)])"
  by pat_completeness auto
termination
  by (relation "measure id") auto

fun join :: "string \<Rightarrow> string list \<Rightarrow> string" where
  "join sep [] = []"
| "join sep [x] = x"
| "join sep (x # y # ys) = x @ sep @ join sep (y # ys)"

definition analyzeSoundMoodEnhanced ::
  "(string \<Rightarrow> string \<Rightarrow> caught + string list) \<Rightarrow> string \<Rightarrow> string \<Rightarrow>
   console \<times> (rejection + string list \<times> string)" where
  "analyzeSoundMoodEnhanced geminiAnalyzeSoundMood sceneDescription visualMood =
     (case geminiAnalyzeSoundMood sceneDescription visualMood of
        Inr moods \<Rightarrow>
          (let reasoning =
                 ''Based on the scene description '' @ [CHR 0x22] @ take 50 sceneDescription @
                 ''...'' @ [CHR 0x22] @ '' and visual mood '' @ [CHR 0x22] @ visualMood @ [CHR 0x22] @
                 '', the AI has identified '' @ digits_of (length moods) @
                 '' primary audio moods: '' @ join '', '' moods @
                 ''. This selection creates an immersive soundscape that enhances the emotional impact of the scene.''
           in ([], Inr (moods, reasoning)))
      | Inl error \<Rightarrow>
          (case sanitizeErrorMessage_call error of
             Inl thrown_by_sanitizer \<Rightarrow> ([], Inl thrown_by_sanitizer)
           | Inr message \<Rightarrow>
               ([(''Enhanced sound mood analysis failed:'', message)],
                Inr ([''ambient''], ''Using default ambient mood due to analysis error.''))))"

definition generateSoundSuggestionsEnhanced ::
  "(string \<Rightarrow> string list \<Rightarrow> string \<Rightarrow> string \<Rightarrow> caught + 'a list) \<Rightarrow>
   string \<Rightarrow> string list \<Rightarrow> string \<Rightarrow> string \<Rightarrow>
   console \<times> (rejection + 'a list \<times> string)" where
  "generateSoundSuggestionsEnhanced geminiGenerateSoundSuggestions sceneDescription mood
       cameraMovement lighting =
     (case geminiGenerateSoundSuggestions sceneDescription mood cameraMovement lighting of
        Inr suggestions \<Rightarrow>
          (let description =
                 ''Generated '' @ digits_of (length suggestions) @
                 '' professional sound suggestions optimized for '' @ join ''/'' mood @
                 '' mood with '' @ cameraMovement @ '' camera movement and '' @ lighting @
                 '' lighting. Each suggestion is carefully crafted to enhance the cinematic experience.''
           in ([], Inr (suggestions, description)))
      | Inl error \<Rightarrow>
          (case sanitizeErrorMessage_call error of
             Inl thrown_by_sanitizer \<Rightarrow> ([], Inl thrown_by_sanitizer)
           | Inr message \<Rightarrow>
               ([(''Enhanced sound suggestions failed:'', message)],
                Inr ([], ''Sound generation encountered an error.''))))"

definition generateFoleySuggestionsEnhanced ::
  "(string list \<Rightarrow> string \<Rightarrow> string \<Rightarrow> caught + 'a list) \<Rightarrow>
   string list \<Rightarrow> string \<Rightarrow> string \<Rightarrow>
   console \<times> (rejection + 'a list \<times> string)" where
  "generateFoleySuggestionsEnhanced geminiGenerateFoleySuggestions characters sceneDescription
       cameraMovement =
     (case geminiGenerateFoleySuggestions characters sceneDescription cameraMovement of
        Inr suggestions \<Rightarrow>
          (let insights =
                 ''Generated '' @ digits_of (length suggestions) @ '' foley suggestions for '' @
                 digits_of (length characters) @
                 '' character(s). These sound effects add realistic layers to character movements and interactions, creating a more immersive audio experience.''
           in ([], Inr (suggestions, insights)))
      | Inl error \<Rightarrow>
          (case sanitizeErrorMessage_call error of
             Inl thrown_by_sanitizer \<Rightarrow> ([], Inl thrown_by_sanitizer)
           | Inr message \<Rightarrow>
               ([(''Enhanced foley suggestions failed:'', message)],
                Inr ([], ''Foley generation encountered an error.''))))"

subsection \<open>The text-to-speech service and the usage statistics\<close>

text \<open>
  The host either has no \<^verbatim>\<open>window\<close>, or a window without \<^verbatim>\<open>speechSynthesis\<close>, or a window
  whose \<^verbatim>\<open>speechSynthesis\<close> reports a list of voices. The constructor keeps the synthesizer
  (\<open>None\<close> for \<^verbatim>\<open>null\<close>) and loads the voices; when there are none yet it listens for the
  event \<^verbatim>\<open>voiceschanged\<close>.
\<close>

datatype 'v host = NoWindow | Window "'v list option"

record 'v TextToSpeechService =
  synth :: "'v list option"
  voices :: "'v list"
  listening :: bool

definition loadVoices :: "'v TextToSpeechService \<Rightarrow> 'v TextToSpeechService" where
  "loadVoices this =
     (case synth this of
        None \<Rightarrow> this
      | Some getVoices \<Rightarrow> this\<lparr> voices := getVoices, listening := (length getVoices = 0) \<rparr>)"

definition new_TextToSpeechService :: "'v host \<Rightarrow> 'v TextToSpeechService" where
  "new_TextToSpeechService h =
     (let this = \<lparr> synth = None, voices = [], listening = False \<rparr>
      in case h of
           Window (Some speechSynthesis) \<Rightarrow> loadVoices (this\<lparr> synth := Some speechSynthesis \<rparr>)
         | _ \<Rightarrow> this)"

definition voiceschanged :: "'v list \<Rightarrow> 'v TextToSpeechService \<Rightarrow> 'v TextToSpeechService" where
  "voiceschanged getVoices this =
     (if listening this then this\<lparr> synth := Some getVoices, voices := getVoices \<rparr> else this)"

definition getAvailableVoices :: "'v TextToSpeechService \<Rightarrow> 'v list" where
  "getAvailableVoices this = voices this"

text \<open>The module's constant \<^verbatim>\<open>ttsService\<close> is a reference to the object constructed when
  the module loads; \<open>None\<close> stands for \<^verbatim>\<open>null\<close>.\<close>

definition ttsService :: "'v host \<Rightarrow> 'v TextToSpeechService option" where
  "ttsService h = Some (new_TextToSpeechService h)"

record ServiceStats =
  ttsAvailable :: bool
  availableVoices :: nat
  timestamp :: string

text \<open>\<open>now\<close> is the text \<^verbatim>\<open>new Date().toISOString()\<close> gives at the call.\<close>

definition getEnhancedServiceStats :: "'v TextToSpeechService option \<Rightarrow> string \<Rightarrow> ServiceStats" where
  "getEnhancedServiceStats tts now =
     \<lparr> ttsAvailable = (tts \<noteq> None),
       availableVoices = (case tts of None \<Rightarrow> 0 | Some t \<Rightarrow> length (getAvailableVoices t)),
       timestamp = now \<rparr>"

subsection \<open>Notions used in the proofs about the sanitizer\<close>

text \<open>\<open>boundary_at p s m\<close>: there is a word boundary at position \<open>m\<close> of \<open>s\<close>, a text that
  follows the character \<open>p\<close>.\<close>

definition boundary_at :: "char option \<Rightarrow> string \<Rightarrow> nat \<Rightarrow> bool" where
  "boundary_at p s m =
     (is_word_at (if m = 0 then p else Some (s ! (m - 1))) \<noteq> is_word_at (first_char (drop m s)))"

text \<open>
  \<open>run_ok k s\<close> reads \<open>s\<close> and keeps, for the run of token characters it is in, the
  number \<open>k\<close> of characters read since the first word character of the run (\<open>0\<close> before
  it). It fails when a word character would be the 40th or a later one: then the run
  holds 40 or more token characters from a word character to a word character.
\<close>

fun run_ok :: "nat \<Rightarrow> string \<Rightarrow> bool" where
  "run_ok k [] = True"
| "run_ok k (c # cs) =
     (if is_word c then Suc k < 40 \<and> run_ok (Suc k) cs
      else if is_token c then run_ok (if k = 0 then 0 else Suc k) cs
      else run_ok 0 cs)"

text \<open>\<open>on_first_line x s\<close>: \<open>x\<close> occurs in \<open>s\<close> before the first line break.\<close>

definition on_first_line :: "string \<Rightarrow> string \<Rightarrow> bool" where
  "on_first_line x s = str_includes (takeWhile (\<lambda>c. c \<noteq> newline) s) x"

text \<open>The characters an item of a pattern can match.\<close>

fun atom_accepts :: "atom \<Rightarrow> char \<Rightarrow> bool" where
  "atom_accepts (One P) c = P c"
| "atom_accepts (Opt P) c = P c"
| "atom_accepts (Many n P) c = P c"
| "atom_accepts WordB c = False"

text \<open>\<open>marked s\<close>: the first line of \<open>s\<close> holds one of the redaction markers.\<close>

definition marked :: "string \<Rightarrow> bool" where
  "marked s = (on_first_line ''[API_KEY]'' s \<or> on_first_line ''[REDACTED]'' s \<or>
               on_first_line ''[REDACTED_TOKEN]'' s)"

section \<open>Properties of the module collaboration service\<close>

subsection \<open>Sorting\<close>

lemma mset_insert_by: "mset (insert_by cmp x ys) = add_mset x (mset ys)"
  by (induction ys) auto

lemma mset_Array_sort: "mset (Array_sort cmp xs) = mset xs"
  unfolding Array_sort_def by (induction xs) (auto simp: mset_insert_by)

lemma length_Array_sort: "length (Array_sort cmp xs) = length xs"
  using mset_Array_sort [of cmp xs] by (metis size_mset)

lemma set_Array_sort: "set (Array_sort cmp xs) = set xs"
  using mset_Array_sort [of cmp xs] by (metis set_mset_mset)

lemma length_filter_Array_sort:
  "length (filter P (Array_sort cmp xs)) = length (filter P xs)"
proof -
  have "mset (filter P (Array_sort cmp xs)) = mset (filter P xs)"
    by (simp add: mset_Array_sort)
  then show ?thesis by (metis size_mset)
qed

lemma priorityOrder_inj: "priorityOrder p = priorityOrder q \<longleftrightarrow> p = q"
  by (cases p; cases q) (simp_all add: priorityOrder_def)

lemma filter_priority_insert_by:
  "filter (\<lambda>s. priority s = p) (insert_by compareFn x ys) =
     (if priority x = p then x # filter (\<lambda>s. priority s = p) ys
      else filter (\<lambda>s. priority s = p) ys)"
proof (induction ys)
  case Nil
  show ?case by simp
next
  case (Cons y ys)
  show ?case
  proof (cases "compareFn x y \<le> 0")
    case True
    then show ?thesis by simp
  next
    case False
    then have "priority y \<noteq> priority x"
      by (auto simp: compareFn_def)
    with False Cons show ?thesis by auto
  qed
qed

lemma filter_priority_Array_sort:
  "filter (\<lambda>s. priority s = p) (Array_sort compareFn xs) = filter (\<lambda>s. priority s = p) xs"
  unfolding Array_sort_def by (induction xs) (simp_all add: filter_priority_insert_by)

lemma set_insert_by: "set (insert_by cmp x ys) = insert x (set ys)"
  by (induction ys) auto

lemma sorted_insert_by:
  "sorted_wrt by_rank ys \<Longrightarrow> sorted_wrt by_rank (insert_by compareFn x ys)"
proof (induction ys)
  case Nil
  show ?case by simp
next
  case (Cons y ys)
  show ?case
  proof (cases "compareFn x y \<le> 0")
    case True
    with Cons.prems show ?thesis
      by (auto simp: compareFn_def by_rank_def)
  next
    case False
    with Cons show ?thesis
      by (auto simp: compareFn_def by_rank_def set_insert_by)
  qed
qed

lemma sorted_Array_sort: "sorted_wrt by_rank (Array_sort compareFn xs)"
  unfolding Array_sort_def by (induction xs) (simp_all add: sorted_insert_by)

subsection \<open>Analysis\<close>

lemma find_None_mset:
  assumes "mset xs = mset ys"
  shows "(find P xs = None) = (find P ys = None)"
proof -
  from assms have "set xs = set ys" by (metis set_mset_mset)
  then show ?thesis by (simp add: find_None_iff)
qed

lemma length_filter_mset:
  assumes "mset xs = mset ys"
  shows "length (filter P xs) = length (filter P ys)"
proof -
  from assms have "mset (filter P xs) = mset (filter P ys)" by simp
  then show ?thesis by (metis size_mset)
qed

lemma analyze_insights [simp]:
  "insights (analyzeCrossModuleSynergies this) = insights this"
  by (simp add: analyzeCrossModuleSynergies_def Let_def)

lemma analyze_only_insights:
  "insights a = insights b \<Longrightarrow>
   crossModuleSuggestions (analyzeCrossModuleSynergies a) =
   crossModuleSuggestions (analyzeCrossModuleSynergies b)"
  by (simp add: analyzeCrossModuleSynergies_def Let_def)

lemma analyze_idem:
  "analyzeCrossModuleSynergies (analyzeCrossModuleSynergies this) =
   analyzeCrossModuleSynergies this"
  by (simp add: analyzeCrossModuleSynergies_def Let_def)

lemma analyze_cong:
  assumes "mset (getModuleInsights a ''casting'') = mset (getModuleInsights b ''casting'')"
    and "mset (getModuleInsights a ''visual'') = mset (getModuleInsights b ''visual'')"
  shows "crossModuleSuggestions (analyzeCrossModuleSynergies a) =
         crossModuleSuggestions (analyzeCrossModuleSynergies b)"
proof -
  let ?ca = "getModuleInsights a ''casting''" and ?cb = "getModuleInsights b ''casting''"
  let ?va = "getModuleInsights a ''visual''" and ?vb = "getModuleInsights b ''visual''"
  have bal: "findVisualCastingBalance ?va ?ca = findVisualCastingBalance ?vb ?cb"
    unfolding findVisualCastingBalance_def Let_def
    using find_None_mset [OF assms(1)] find_None_mset [OF assms(2)] by simp
  have ali: "findCastingVisualAlignment ?va ?ca = findCastingVisualAlignment ?vb ?cb"
    unfolding findCastingVisualAlignment_def Let_def
    using length_filter_mset [OF assms(1)] length_filter_mset [OF assms(2)] by simp
  show ?thesis
    unfolding analyzeCrossModuleSynergies_def Let_def
    using bal ali unfolding getModuleInsights_def by (simp cong: option.case_cong)
qed

lemma getModuleInsights_add:
  "getModuleInsights (addModuleInsight m t r d this) k =
     (if k = m
      then getModuleInsights this m @
             [\<lparr> module = m, insight = t,
                relevance = (case r of Some r' \<Rightarrow> r' | None \<Rightarrow> Medium),
                actionable = True, sharedData = d \<rparr>]
      else getModuleInsights this k)"
  by (simp add: getModuleInsights_def addModuleInsight_def Map_get_def Map_set_def
      Let_def update_conv')

lemma add_is_analyzed:
  "analyzeCrossModuleSynergies (addModuleInsight m t r d this) = addModuleInsight m t r d this"
  by (simp add: addModuleInsight_def Let_def analyze_idem)

lemma analyze_shape:
  "crossModuleSuggestions (analyzeCrossModuleSynergies this) \<in>
     {[],
      [\<lparr> type = Balance, modules = [''visual'', ''casting''],
         suggestion = ''Balance serious character presence with warm visual color grading'',
         rationale = ''Warm colors can soften serious characters and create emotional depth'',
         priority = Medium \<rparr>],
      [\<lparr> type = Enhance, modules = [''visual'', ''casting''],
         suggestion = ''Strengthen thematic coherence between visual storytelling and casting choices'',
         rationale = ''Both modules highlight compatible emotional or thematic directions worth emphasizing'',
         priority = High \<rparr>],
      [\<lparr> type = Balance, modules = [''visual'', ''casting''],
         suggestion = ''Balance serious character presence with warm visual color grading'',
         rationale = ''Warm colors can soften serious characters and create emotional depth'',
         priority = Medium \<rparr>,
       \<lparr> type = Enhance, modules = [''visual'', ''casting''],
         suggestion = ''Strengthen thematic coherence between visual storytelling and casting choices'',
         rationale = ''Both modules highlight compatible emotional or thematic directions worth emphasizing'',
         priority = High \<rparr>]}"
  by (simp add: analyzeCrossModuleSynergies_def findVisualCastingBalance_def
      findCastingVisualAlignment_def spread_def Let_def)

lemma analyze_bounds:
  "length (crossModuleSuggestions (analyzeCrossModuleSynergies this)) \<le> 2"
  "s \<in> set (crossModuleSuggestions (analyzeCrossModuleSynergies this)) \<Longrightarrow>
     (type s = Balance \<or> type s = Enhance) \<and> (priority s = Medium \<or> priority s = High)"
  using analyze_shape [of this] by auto

text \<open>The stored suggestions are, up to order, the analysis of the stored insights.\<close>

lemma reachable_inv:
  "reachable this \<Longrightarrow>
   mset (crossModuleSuggestions this) =
   mset (crossModuleSuggestions (analyzeCrossModuleSynergies this))"
proof (induction rule: reachable.induct)
  case reach_init
  show ?case
    by (simp add: getInstance_def analyzeCrossModuleSynergies_def Map_get_def
        findVisualCastingBalance_def findCastingVisualAlignment_def Let_def)
next
  case (reach_add this m t rel shared)
  show ?case by (simp add: add_is_analyzed)
next
  case (reach_get this)
  have "crossModuleSuggestions (analyzeCrossModuleSynergies (snd (getCrossModuleSuggestions this)))
        = crossModuleSuggestions (analyzeCrossModuleSynergies this)"
    by (rule analyze_only_insights) (simp add: getCrossModuleSuggestions_def Let_def)
  with reach_get.IH show ?case
    by (simp add: getCrossModuleSuggestions_def Let_def mset_Array_sort)
next
  case (reach_clear this)
  show ?case
    by (simp add: clearInsights_def analyzeCrossModuleSynergies_def Map_get_def
        findVisualCastingBalance_def findCastingVisualAlignment_def Let_def)
next
  case (reach_coherence this)
  have eq: "snd (analyzeProjectCoherence this) = snd (getCrossModuleSuggestions this)"
    by (simp add: analyzeProjectCoherence_def Let_def split: prod.splits)
  have "crossModuleSuggestions (analyzeCrossModuleSynergies (snd (getCrossModuleSuggestions this)))
        = crossModuleSuggestions (analyzeCrossModuleSynergies this)"
    by (rule analyze_only_insights) (simp add: getCrossModuleSuggestions_def Let_def)
  with reach_coherence.IH show ?case
    unfolding eq by (simp add: getCrossModuleSuggestions_def Let_def mset_Array_sort)
qed

lemma reachable_bounds:
  assumes "reachable this"
  shows "length (crossModuleSuggestions this) \<le> 2"
    and "s \<in> set (crossModuleSuggestions this) \<Longrightarrow>
     (type s = Balance \<or> type s = Enhance) \<and> (priority s = Medium \<or> priority s = High)"
proof -
  note inv = reachable_inv [OF assms]
  have "length (crossModuleSuggestions this) =
        length (crossModuleSuggestions (analyzeCrossModuleSynergies this))"
    using inv by (metis size_mset)
  then show "length (crossModuleSuggestions this) \<le> 2"
    by (simp add: analyze_bounds(1))
  have "set (crossModuleSuggestions this) =
        set (crossModuleSuggestions (analyzeCrossModuleSynergies this))"
    using inv by (metis set_mset_mset)
  then show "s \<in> set (crossModuleSuggestions this) \<Longrightarrow>
     (type s = Balance \<or> type s = Enhance) \<and> (priority s = Medium \<or> priority s = High)"
    using analyze_bounds(2) by blast
qed

lemma score_formula:
  "score (fst (analyzeProjectCoherence this)) =
     max 0 (min 100
       (50 + 10 * int (length (filter (\<lambda>i. relevance i = High) (getAllInsights this)))
           + 5 * int (length (filter (\<lambda>s. priority s = High) (crossModuleSuggestions this)))
           - 3 * int (length (filter (\<lambda>s. priority s = Low) (crossModuleSuggestions this)))))"
  by (simp add: analyzeProjectCoherence_def getCrossModuleSuggestions_def Let_def
      length_filter_Array_sort)

lemma no_insights_no_suggestions:
  assumes "getAllInsights this = []"
  shows "crossModuleSuggestions (analyzeCrossModuleSynergies this) = []"
proof -
  have all: "\<And>k l. Map_get (insights this) k = Some l \<Longrightarrow> l = []"
  proof -
    fix k l assume "Map_get (insights this) k = Some l"
    then have "(k, l) \<in> set (insights this)"
      by (simp add: Map_get_def map_of_SomeD)
    then have "l \<in> set (Map_values (insights this))"
      by (force simp: Map_values_def)
    with assms show "l = []" by (simp add: getAllInsights_def)
  qed
  have c: "(case Map_get (insights this) ''casting'' of Some l \<Rightarrow> l | None \<Rightarrow> []) = []"
    using all by (cases "Map_get (insights this) ''casting''") auto
  have v: "(case Map_get (insights this) ''visual'' of Some l \<Rightarrow> l | None \<Rightarrow> []) = []"
    using all by (cases "Map_get (insights this) ''visual''") auto
  show ?thesis
    by (simp add: analyzeCrossModuleSynergies_def Let_def c v
        findVisualCastingBalance_def findCastingVisualAlignment_def)
qed

subsection \<open>Evaluating \<open>str_includes\<close> and the analysis\<close>

lemma str_includes_Nil [simp]: "str_includes s []"
  by (simp add: str_includes_def)

lemma str_includes_Cons:
  "str_includes (c # cs) (x # xs) = (prefix (x # xs) (c # cs) \<or> str_includes cs (x # xs))"
  by (simp add: str_includes_def sublist_Cons_right)

lemma str_includes_Nil_left: "str_includes [] (x # xs) = False"
  by (simp add: str_includes_def)

lemma getModuleInsights_getInstance [simp]: "getModuleInsights getInstance k = []"
  by (simp add: getModuleInsights_def getInstance_def Map_get_def)

lemma analyze_via_get:
  "crossModuleSuggestions (analyzeCrossModuleSynergies this) =
     (case findVisualCastingBalance (getModuleInsights this ''visual'')
             (getModuleInsights this ''casting'') of
        Some r \<Rightarrow> [spread Balance [''visual'', ''casting''] r] | None \<Rightarrow> []) @
     (case findCastingVisualAlignment (getModuleInsights this ''visual'')
             (getModuleInsights this ''casting'') of
        Some r \<Rightarrow> [spread Enhance [''visual'', ''casting''] r] | None \<Rightarrow> [])"
  by (simp add: analyzeCrossModuleSynergies_def getModuleInsights_def Let_def
      split: option.splits)

lemma add_via_get:
  "crossModuleSuggestions (addModuleInsight m t r d this) =
     (case findVisualCastingBalance (getModuleInsights (addModuleInsight m t r d this) ''visual'')
             (getModuleInsights (addModuleInsight m t r d this) ''casting'') of
        Some r \<Rightarrow> [spread Balance [''visual'', ''casting''] r] | None \<Rightarrow> []) @
     (case findCastingVisualAlignment (getModuleInsights (addModuleInsight m t r d this) ''visual'')
             (getModuleInsights (addModuleInsight m t r d this) ''casting'') of
        Some r \<Rightarrow> [spread Enhance [''visual'', ''casting''] r] | None \<Rightarrow> [])"
  using analyze_via_get [of "addModuleInsight m t r d this"]
  by (simp only: add_is_analyzed)


section \<open>Claims about the module collaboration service\<close>

text \<open>
  Claim C2. For every state of the insight store and the suggestion list, the score of
  \<^verbatim>\<open>analyzeProjectCoherence\<close> is 50 + 10 for each high-relevance insight of any module
  + 5 for each high-priority suggestion - 3 for each low-priority suggestion, clamped to
  the range from 0 to 100; so it lies between 0 and 100, and in a state of the service
  with no stored insight it is exactly 50.
\<close>

theorem analyzeProjectCoherence_score:
  "score (fst (analyzeProjectCoherence this)) =
     max 0 (min 100
       (50 + 10 * int (length (filter (\<lambda>i. relevance i = High) (getAllInsights this)))
           + 5 * int (length (filter (\<lambda>s. priority s = High) (crossModuleSuggestions this)))
           - 3 * int (length (filter (\<lambda>s. priority s = Low) (crossModuleSuggestions this)))))
   \<and> 0 \<le> score (fst (analyzeProjectCoherence this))
   \<and> score (fst (analyzeProjectCoherence this)) \<le> 100
   \<and> (reachable this \<and> getAllInsights this = [] \<longrightarrow>
        score (fst (analyzeProjectCoherence this)) = 50)"
proof (intro conjI impI)
  show f: "score (fst (analyzeProjectCoherence this)) =
     max 0 (min 100
       (50 + 10 * int (length (filter (\<lambda>i. relevance i = High) (getAllInsights this)))
           + 5 * int (length (filter (\<lambda>s. priority s = High) (crossModuleSuggestions this)))
           - 3 * int (length (filter (\<lambda>s. priority s = Low) (crossModuleSuggestions this)))))"
    by (rule score_formula)
  show "0 \<le> score (fst (analyzeProjectCoherence this))"
    unfolding f by simp
  show "score (fst (analyzeProjectCoherence this)) \<le> 100"
    unfolding f by simp
next
  assume a: "reachable this \<and> getAllInsights this = []"
  then have "mset (crossModuleSuggestions this) = {#}"
    using reachable_inv [of this] no_insights_no_suggestions [of this] by simp
  then have "crossModuleSuggestions this = []" by simp
  with a show "score (fst (analyzeProjectCoherence this)) = 50"
    by (simp add: score_formula)
qed

text \<open>
  The score after an insight was added and the store was cleared again.
\<close>

theorem analyzeProjectCoherence_score_witness:
  "reachable (clearInsights (addModuleInsight ''visual'' ''warm theme'' (Some High) None
       (getInstance :: unit ModuleCollaborationService)))
   \<and> getAllInsights (clearInsights (addModuleInsight ''visual'' ''warm theme'' (Some High) None
       (getInstance :: unit ModuleCollaborationService))) = []
   \<and> score (fst (analyzeProjectCoherence
       (clearInsights (addModuleInsight ''visual'' ''warm theme'' (Some High) None
       (getInstance :: unit ModuleCollaborationService))))) = 50"
proof -
  let ?w = "clearInsights (addModuleInsight ''visual'' ''warm theme'' (Some High) None
       (getInstance :: unit ModuleCollaborationService))"
  have r: "reachable ?w"
    by (intro reach_clear reach_add reach_init)
  have e: "getAllInsights ?w = []"
    by (simp add: getAllInsights_def clearInsights_def Map_values_def)
  from analyzeProjectCoherence_score [of ?w] r e show ?thesis by blast
qed

text \<open>
  Claim C3. Adding insight A and then B leaves the same suggestion list as adding B and
  then A, each insight going to the same module in both orders; and two insight stores
  that hold the same insights per module, in any order, get the same suggestions from a
  re-analysis.
\<close>

theorem addModuleInsight_order_independent:
  "crossModuleSuggestions
     (addModuleInsight mB tB rB dB (addModuleInsight mA tA rA dA this)) =
   crossModuleSuggestions
     (addModuleInsight mA tA rA dA (addModuleInsight mB tB rB dB this))
   \<and> (mset (getModuleInsights a ''casting'') = mset (getModuleInsights b ''casting'') \<and>
       mset (getModuleInsights a ''visual'') = mset (getModuleInsights b ''visual'') \<longrightarrow>
       crossModuleSuggestions (analyzeCrossModuleSynergies a) =
       crossModuleSuggestions (analyzeCrossModuleSynergies b))"
proof (intro conjI impI)
  let ?ab = "addModuleInsight mB tB rB dB (addModuleInsight mA tA rA dA this)"
  let ?ba = "addModuleInsight mA tA rA dA (addModuleInsight mB tB rB dB this)"
  have k: "mset (getModuleInsights ?ab k) = mset (getModuleInsights ?ba k)" for k
    by (simp add: getModuleInsights_add)
  have "crossModuleSuggestions (analyzeCrossModuleSynergies ?ab) =
        crossModuleSuggestions (analyzeCrossModuleSynergies ?ba)"
    by (rule analyze_cong) (rule k)+
  then show "crossModuleSuggestions ?ab = crossModuleSuggestions ?ba"
    by (simp only: add_is_analyzed)
next
  assume "mset (getModuleInsights a ''casting'') = mset (getModuleInsights b ''casting'') \<and>
       mset (getModuleInsights a ''visual'') = mset (getModuleInsights b ''visual'')"
  then show "crossModuleSuggestions (analyzeCrossModuleSynergies a) =
       crossModuleSuggestions (analyzeCrossModuleSynergies b)"
    using analyze_cong [of a b] by blast
qed

text \<open>
  Two casting insights added in the two possible orders.
\<close>

theorem addModuleInsight_order_independent_witness:
  "mset (getModuleInsights
      (addModuleInsight ''casting'' ''an emotion'' None None
        (addModuleInsight ''casting'' ''a theme'' None None
          (getInstance :: unit ModuleCollaborationService))) ''casting'')
   = mset (getModuleInsights
      (addModuleInsight ''casting'' ''a theme'' None None
        (addModuleInsight ''casting'' ''an emotion'' None None
          (getInstance :: unit ModuleCollaborationService))) ''casting'')
   \<and> mset (getModuleInsights
      (addModuleInsight ''casting'' ''an emotion'' None None
        (addModuleInsight ''casting'' ''a theme'' None None
          (getInstance :: unit ModuleCollaborationService))) ''visual'')
   = mset (getModuleInsights
      (addModuleInsight ''casting'' ''a theme'' None None
        (addModuleInsight ''casting'' ''an emotion'' None None
          (getInstance :: unit ModuleCollaborationService))) ''visual'')
   \<and> crossModuleSuggestions (analyzeCrossModuleSynergies
      (addModuleInsight ''casting'' ''an emotion'' None None
        (addModuleInsight ''casting'' ''a theme'' None None
          (getInstance :: unit ModuleCollaborationService))))
   = crossModuleSuggestions (analyzeCrossModuleSynergies
      (addModuleInsight ''casting'' ''a theme'' None None
        (addModuleInsight ''casting'' ''an emotion'' None None
          (getInstance :: unit ModuleCollaborationService))))"
proof -
  let ?a = "addModuleInsight ''casting'' ''an emotion'' None None
        (addModuleInsight ''casting'' ''a theme'' None None
          (getInstance :: unit ModuleCollaborationService))"
  let ?b = "addModuleInsight ''casting'' ''a theme'' None None
        (addModuleInsight ''casting'' ''an emotion'' None None
          (getInstance :: unit ModuleCollaborationService))"
  have c: "mset (getModuleInsights ?a ''casting'') = mset (getModuleInsights ?b ''casting'')"
    by (simp add: getModuleInsights_add)
  have v: "mset (getModuleInsights ?a ''visual'') = mset (getModuleInsights ?b ''visual'')"
    by (simp add: getModuleInsights_add)
  from addModuleInsight_order_independent [of _ _ _ _ _ _ _ _ _ ?a ?b] c v
  show ?thesis by blast
qed

text \<open>
  Claim C5, as the specification states it: a visual insight with "golden" or "warm" and
  a casting insight with "serious" or "professional" give exactly one suggestion. When
  both texts also name a theme or an emotion, the second rule adds its suggestion.
\<close>

theorem golden_serious_scenario_two_suggestions:
  "length (crossModuleSuggestions
     (addModuleInsight ''casting'' ''serious emotion'' None None
       (addModuleInsight ''visual'' ''warm theme'' None None
         (getInstance :: unit ModuleCollaborationService)))) = 2"
  by (simp add: addModuleInsight_def analyzeCrossModuleSynergies_def getInstance_def
      Map_get_def Map_set_def findVisualCastingBalance_def findCastingVisualAlignment_def
      Let_def str_includes_Cons str_includes_Nil_left)

text \<open>
  Claim C5, amended. From a fresh service, after a visual insight whose text contains
  "golden" or "warm" and a casting insight whose text contains "serious" or
  "professional", in either order, the suggestion list starts with one suggestion of type
  balance, priority medium, for the modules visual and casting. It is the only one
  unless both texts also contain "theme" or "emotion"; then one suggestion of type
  enhance and priority high follows it.
\<close>

theorem warm_serious_balance:
  "str_includes tv ''golden'' \<or> str_includes tv ''warm'' \<Longrightarrow>
   str_includes tc ''serious'' \<or> str_includes tc ''professional'' \<Longrightarrow>
   crossModuleSuggestions
     (addModuleInsight ''casting'' tc rc dc
       (addModuleInsight ''visual'' tv rv dv getInstance)) =
     \<lparr> type = Balance, modules = [''visual'', ''casting''],
       suggestion = ''Balance serious character presence with warm visual color grading'',
       rationale = ''Warm colors can soften serious characters and create emotional depth'',
       priority = Medium \<rparr> #
     (if (str_includes tv ''theme'' \<or> str_includes tv ''emotion'') \<and>
         (str_includes tc ''theme'' \<or> str_includes tc ''emotion'')
      then [\<lparr> type = Enhance, modules = [''visual'', ''casting''],
              suggestion = ''Strengthen thematic coherence between visual storytelling and casting choices'',
              rationale = ''Both modules highlight compatible emotional or thematic directions worth emphasizing'',
              priority = High \<rparr>]
      else [])
   \<and> crossModuleSuggestions
     (addModuleInsight ''visual'' tv rv dv
       (addModuleInsight ''casting'' tc rc dc getInstance)) =
     crossModuleSuggestions
     (addModuleInsight ''casting'' tc rc dc
       (addModuleInsight ''visual'' tv rv dv getInstance))"
proof
  assume v: "str_includes tv ''golden'' \<or> str_includes tv ''warm''"
    and c: "str_includes tc ''serious'' \<or> str_includes tc ''professional''"
  have ne: "''casting'' \<noteq> ''visual''" by simp
  show "crossModuleSuggestions
     (addModuleInsight ''casting'' tc rc dc
       (addModuleInsight ''visual'' tv rv dv getInstance)) =
     \<lparr> type = Balance, modules = [''visual'', ''casting''],
       suggestion = ''Balance serious character presence with warm visual color grading'',
       rationale = ''Warm colors can soften serious characters and create emotional depth'',
       priority = Medium \<rparr> #
     (if (str_includes tv ''theme'' \<or> str_includes tv ''emotion'') \<and>
         (str_includes tc ''theme'' \<or> str_includes tc ''emotion'')
      then [\<lparr> type = Enhance, modules = [''visual'', ''casting''],
              suggestion = ''Strengthen thematic coherence between visual storytelling and casting choices'',
              rationale = ''Both modules highlight compatible emotional or thematic directions worth emphasizing'',
              priority = High \<rparr>]
      else [])"
    using v c
    by (auto simp add: add_via_get getModuleInsights_add findVisualCastingBalance_def
        findCastingVisualAlignment_def Let_def spread_def)
  show "crossModuleSuggestions
     (addModuleInsight ''visual'' tv rv dv
       (addModuleInsight ''casting'' tc rc dc getInstance)) =
     crossModuleSuggestions
     (addModuleInsight ''casting'' tc rc dc
       (addModuleInsight ''visual'' tv rv dv getInstance))"
  proof -
    let ?ab = "addModuleInsight ''visual'' tv rv dv (addModuleInsight ''casting'' tc rc dc getInstance)"
    let ?ba = "addModuleInsight ''casting'' tc rc dc (addModuleInsight ''visual'' tv rv dv getInstance)"
    have k: "mset (getModuleInsights ?ab k) = mset (getModuleInsights ?ba k)" for k
      by (simp add: getModuleInsights_add)
    have "crossModuleSuggestions (analyzeCrossModuleSynergies ?ab) =
          crossModuleSuggestions (analyzeCrossModuleSynergies ?ba)"
      by (rule analyze_cong) (rule k)+
    then show ?thesis by (simp only: add_is_analyzed)
  qed
qed

text \<open>
  The texts of the specification's scenario: exactly the balance suggestion.
\<close>

theorem warm_serious_balance_witness:
  "(str_includes ''the lighting feels golden and warm'' ''golden'' \<or>
    str_includes ''the lighting feels golden and warm'' ''warm'')
   \<and> (str_includes ''character is serious and professional'' ''serious'' \<or>
      str_includes ''character is serious and professional'' ''professional'')
   \<and> crossModuleSuggestions
     (addModuleInsight ''casting'' ''character is serious and professional'' None None
       (addModuleInsight ''visual'' ''the lighting feels golden and warm'' None None
         (getInstance :: unit ModuleCollaborationService))) =
     [\<lparr> type = Balance, modules = [''visual'', ''casting''],
       suggestion = ''Balance serious character presence with warm visual color grading'',
       rationale = ''Warm colors can soften serious characters and create emotional depth'',
       priority = Medium \<rparr>]"
proof -
  have v: "str_includes ''the lighting feels golden and warm'' ''golden'' \<or>
    str_includes ''the lighting feels golden and warm'' ''warm''"
    by (simp add: str_includes_Cons)
  have c: "str_includes ''character is serious and professional'' ''serious'' \<or>
      str_includes ''character is serious and professional'' ''professional''"
    by (simp add: str_includes_Cons)
  have t: "\<not> (str_includes ''the lighting feels golden and warm'' ''theme'' \<or>
    str_includes ''the lighting feels golden and warm'' ''emotion'')"
    by (simp add: str_includes_Cons str_includes_Nil_left)
  from warm_serious_balance [OF v c, of None None None "None :: unit option"] t v c
  show ?thesis by simp
qed

text \<open>
  Claim C6. When \<^verbatim>\<open>addModuleInsight\<close> returns, the stored suggestion list is what a full
  re-analysis of the insight store gives, and nothing of the list stored before the call
  is left in it.
\<close>

theorem addModuleInsight_fresh_suggestions:
  "crossModuleSuggestions (addModuleInsight m t r d this) =
     crossModuleSuggestions (analyzeCrossModuleSynergies (addModuleInsight m t r d this))
   \<and> crossModuleSuggestions (addModuleInsight m t r d (this\<lparr> crossModuleSuggestions := stale \<rparr>)) =
     crossModuleSuggestions (addModuleInsight m t r d this)"
proof
  show "crossModuleSuggestions (addModuleInsight m t r d this) =
     crossModuleSuggestions (analyzeCrossModuleSynergies (addModuleInsight m t r d this))"
    by (simp only: add_is_analyzed)
  show "crossModuleSuggestions (addModuleInsight m t r d (this\<lparr> crossModuleSuggestions := stale \<rparr>)) =
     crossModuleSuggestions (addModuleInsight m t r d this)"
    unfolding addModuleInsight_def Let_def
    by (rule analyze_only_insights) simp
qed

text \<open>
  Claim C7. For every stored suggestion list, the list \<^verbatim>\<open>getCrossModuleSuggestions\<close>
  returns has, for every adjacent pair, a priority rank (high 3, medium 2, low 1) that
  does not increase; the suggestions of each priority keep the order they were stored
  in, which is the order the rules were evaluated in; and the result is a rearrangement
  of the stored list.
\<close>

theorem getCrossModuleSuggestions_sorted_stable:
  "(\<forall>i. Suc i < length (fst (getCrossModuleSuggestions this)) \<longrightarrow>
        priorityOrder (priority (fst (getCrossModuleSuggestions this) ! i)) \<ge>
        priorityOrder (priority (fst (getCrossModuleSuggestions this) ! Suc i)))
   \<and> (\<forall>p. filter (\<lambda>s. priority s = p) (fst (getCrossModuleSuggestions this)) =
           filter (\<lambda>s. priority s = p) (crossModuleSuggestions this))
   \<and> mset (fst (getCrossModuleSuggestions this)) = mset (crossModuleSuggestions this)"
proof (intro conjI allI impI)
  fix i
  assume i: "Suc i < length (fst (getCrossModuleSuggestions this))"
  let ?out = "Array_sort compareFn (crossModuleSuggestions this)"
  have out: "fst (getCrossModuleSuggestions this) = ?out"
    by (simp add: getCrossModuleSuggestions_def Let_def)
  have "sorted_wrt by_rank ?out" by (rule sorted_Array_sort)
  moreover have "i < Suc i" by simp
  moreover have "Suc i < length ?out" using i out by simp
  ultimately have "by_rank (?out ! i) (?out ! Suc i)"
    by (rule sorted_wrt_nth_less)
  then show "priorityOrder (priority (fst (getCrossModuleSuggestions this) ! i)) \<ge>
        priorityOrder (priority (fst (getCrossModuleSuggestions this) ! Suc i))"
    by (simp add: out by_rank_def)
next
  fix p
  show "filter (\<lambda>s. priority s = p) (fst (getCrossModuleSuggestions this)) =
           filter (\<lambda>s. priority s = p) (crossModuleSuggestions this)"
    by (simp add: getCrossModuleSuggestions_def Let_def filter_priority_Array_sort)
next
  show "mset (fst (getCrossModuleSuggestions this)) = mset (crossModuleSuggestions this)"
    by (simp add: getCrossModuleSuggestions_def Let_def mset_Array_sort)
qed

text \<open>
  A stored list low, high, medium, high comes back as high, high, medium, low, the two
  high ones in their stored order.
\<close>

theorem getCrossModuleSuggestions_sorted_stable_witness:
  "Suc 0 < length (fst (getCrossModuleSuggestions
      \<lparr> insights = ([] :: (string, unit ModuleInsight list) Map),
        crossModuleSuggestions =
          [\<lparr> type = Contrast, modules = [], suggestion = ''a'', rationale = '''', priority = Low \<rparr>,
           \<lparr> type = Enhance, modules = [], suggestion = ''b'', rationale = '''', priority = High \<rparr>,
           \<lparr> type = Balance, modules = [], suggestion = ''c'', rationale = '''', priority = Medium \<rparr>,
           \<lparr> type = Sync, modules = [], suggestion = ''d'', rationale = '''', priority = High \<rparr>] \<rparr>))
   \<and> priorityOrder (priority (fst (getCrossModuleSuggestions
      \<lparr> insights = ([] :: (string, unit ModuleInsight list) Map),
        crossModuleSuggestions =
          [\<lparr> type = Contrast, modules = [], suggestion = ''a'', rationale = '''', priority = Low \<rparr>,
           \<lparr> type = Enhance, modules = [], suggestion = ''b'', rationale = '''', priority = High \<rparr>,
           \<lparr> type = Balance, modules = [], suggestion = ''c'', rationale = '''', priority = Medium \<rparr>,
           \<lparr> type = Sync, modules = [], suggestion = ''d'', rationale = '''', priority = High \<rparr>] \<rparr>) ! 0))
     \<ge> priorityOrder (priority (fst (getCrossModuleSuggestions
      \<lparr> insights = ([] :: (string, unit ModuleInsight list) Map),
        crossModuleSuggestions =
          [\<lparr> type = Contrast, modules = [], suggestion = ''a'', rationale = '''', priority = Low \<rparr>,
           \<lparr> type = Enhance, modules = [], suggestion = ''b'', rationale = '''', priority = High \<rparr>,
           \<lparr> type = Balance, modules = [], suggestion = ''c'', rationale = '''', priority = Medium \<rparr>,
           \<lparr> type = Sync, modules = [], suggestion = ''d'', rationale = '''', priority = High \<rparr>] \<rparr>) ! Suc 0))
   \<and> map suggestion (fst (getCrossModuleSuggestions
      \<lparr> insights = ([] :: (string, unit ModuleInsight list) Map),
        crossModuleSuggestions =
          [\<lparr> type = Contrast, modules = [], suggestion = ''a'', rationale = '''', priority = Low \<rparr>,
           \<lparr> type = Enhance, modules = [], suggestion = ''b'', rationale = '''', priority = High \<rparr>,
           \<lparr> type = Balance, modules = [], suggestion = ''c'', rationale = '''', priority = Medium \<rparr>,
           \<lparr> type = Sync, modules = [], suggestion = ''d'', rationale = '''', priority = High \<rparr>] \<rparr>))
     = [''b'', ''d'', ''c'', ''a'']"
proof -
  let ?w = "\<lparr> insights = ([] :: (string, unit ModuleInsight list) Map),
        crossModuleSuggestions =
          [\<lparr> type = Contrast, modules = [], suggestion = ''a'', rationale = '''', priority = Low \<rparr>,
           \<lparr> type = Enhance, modules = [], suggestion = ''b'', rationale = '''', priority = High \<rparr>,
           \<lparr> type = Balance, modules = [], suggestion = ''c'', rationale = '''', priority = Medium \<rparr>,
           \<lparr> type = Sync, modules = [], suggestion = ''d'', rationale = '''', priority = High \<rparr>] \<rparr>"
  have h: "Suc 0 < length (fst (getCrossModuleSuggestions ?w))"
    by (simp add: getCrossModuleSuggestions_def Let_def length_Array_sort)
  have m: "map suggestion (fst (getCrossModuleSuggestions ?w)) = [''b'', ''d'', ''c'', ''a'']"
    by (simp add: getCrossModuleSuggestions_def Let_def Array_sort_def compareFn_def priorityOrder_def)
  from getCrossModuleSuggestions_sorted_stable [of ?w] h m show ?thesis by blast
qed

text \<open>
  Claim C9. In every reachable state of the service the suggestion list has at most two
  suggestions, each of type balance or enhance (never sync or contrast) and of priority
  medium or high (never low); so \<^verbatim>\<open>analyzeProjectCoherence\<close> counts no low-priority
  suggestion, and its score is at least 50.
\<close>

theorem reachable_suggestions_bounded:
  "reachable this \<Longrightarrow>
     length (crossModuleSuggestions this) \<le> 2
   \<and> (\<forall>s \<in> set (crossModuleSuggestions this).
        (type s = Balance \<or> type s = Enhance) \<and> type s \<noteq> Sync \<and> type s \<noteq> Contrast \<and>
        (priority s = Medium \<or> priority s = High) \<and> priority s \<noteq> Low)
   \<and> length (filter (\<lambda>s. priority s = Low) (fst (getCrossModuleSuggestions this))) = 0
   \<and> 50 \<le> score (fst (analyzeProjectCoherence this))"
proof -
  assume r: "reachable this"
  have len: "length (crossModuleSuggestions this) \<le> 2"
    by (rule reachable_bounds(1) [OF r])
  have mem: "(type s = Balance \<or> type s = Enhance) \<and> type s \<noteq> Sync \<and> type s \<noteq> Contrast \<and>
        (priority s = Medium \<or> priority s = High) \<and> priority s \<noteq> Low"
    if "s \<in> set (crossModuleSuggestions this)" for s
    using reachable_bounds(2) [OF r that] by auto
  have low: "filter (\<lambda>s. priority s = Low) (crossModuleSuggestions this) = []"
    using mem by (auto simp: filter_empty_conv)
  have low': "length (filter (\<lambda>s. priority s = Low) (fst (getCrossModuleSuggestions this))) = 0"
    by (simp add: getCrossModuleSuggestions_def Let_def filter_priority_Array_sort low)
  have "50 \<le> score (fst (analyzeProjectCoherence this))"
    by (simp add: score_formula low)
  with len mem low' show ?thesis by blast
qed

text \<open>
  A reachable state in which both rules fire.
\<close>

theorem reachable_suggestions_bounded_witness:
  "reachable (addModuleInsight ''casting'' ''serious emotion'' None None
      (addModuleInsight ''visual'' ''warm theme'' None None
        (getInstance :: unit ModuleCollaborationService)))
   \<and> length (crossModuleSuggestions (addModuleInsight ''casting'' ''serious emotion'' None None
      (addModuleInsight ''visual'' ''warm theme'' None None
        (getInstance :: unit ModuleCollaborationService)))) \<le> 2
   \<and> 50 \<le> score (fst (analyzeProjectCoherence (addModuleInsight ''casting'' ''serious emotion'' None None
      (addModuleInsight ''visual'' ''warm theme'' None None
        (getInstance :: unit ModuleCollaborationService)))))"
proof -
  let ?w = "addModuleInsight ''casting'' ''serious emotion'' None None
      (addModuleInsight ''visual'' ''warm theme'' None None
        (getInstance :: unit ModuleCollaborationService))"
  have r: "reachable ?w" by (intro reach_add reach_init)
  from reachable_suggestions_bounded [OF r] r show ?thesis by blast
qed


section \<open>Claims about the sound and visual variant\<close>

lemma getModuleInsights_add_sv:
  "getModuleInsights (addModuleInsight_sv m t r d this) k =
     (if k = m
      then getModuleInsights this m @
             [\<lparr> module = m, insight = t,
                relevance = (case r of Some r' \<Rightarrow> r' | None \<Rightarrow> Medium),
                actionable = True, sharedData = d \<rparr>]
      else getModuleInsights this k)"
  by (simp add: getModuleInsights_def addModuleInsight_sv_def analyzeCrossModuleSynergies_sv_def
      Map_get_def Map_set_def Let_def update_conv')

lemma analyze_sv_idem:
  "analyzeCrossModuleSynergies_sv (analyzeCrossModuleSynergies_sv this) =
   analyzeCrossModuleSynergies_sv this"
  by (simp add: analyzeCrossModuleSynergies_sv_def Let_def)

lemma add_sv_via_get:
  "crossModuleSuggestions (addModuleInsight_sv m t r d this) =
     (case findSoundVisualSync (getModuleInsights (addModuleInsight_sv m t r d this) ''sound'')
             (getModuleInsights (addModuleInsight_sv m t r d this) ''visual'') of
        Some r \<Rightarrow> [spread Sync [''sound'', ''visual''] r] | None \<Rightarrow> []) @
     (case findSoundVisualEnhancement (getModuleInsights (addModuleInsight_sv m t r d this) ''sound'')
             (getModuleInsights (addModuleInsight_sv m t r d this) ''visual'') of
        Some r \<Rightarrow> [spread Enhance [''sound'', ''visual''] r] | None \<Rightarrow> [])"
proof -
  have "addModuleInsight_sv m t r d this =
        analyzeCrossModuleSynergies_sv (addModuleInsight_sv m t r d this)"
    by (simp add: addModuleInsight_sv_def Let_def analyze_sv_idem)
  then have "crossModuleSuggestions (addModuleInsight_sv m t r d this) =
        crossModuleSuggestions (analyzeCrossModuleSynergies_sv (addModuleInsight_sv m t r d this))"
    by simp
  also have "\<dots> =
     (case findSoundVisualSync (getModuleInsights (addModuleInsight_sv m t r d this) ''sound'')
             (getModuleInsights (addModuleInsight_sv m t r d this) ''visual'') of
        Some r \<Rightarrow> [spread Sync [''sound'', ''visual''] r] | None \<Rightarrow> []) @
     (case findSoundVisualEnhancement (getModuleInsights (addModuleInsight_sv m t r d this) ''sound'')
             (getModuleInsights (addModuleInsight_sv m t r d this) ''visual'') of
        Some r \<Rightarrow> [spread Enhance [''sound'', ''visual''] r] | None \<Rightarrow> [])"
    by (simp add: analyzeCrossModuleSynergies_sv_def [of "addModuleInsight_sv m t r d this"]
        getModuleInsights_def Let_def split: option.splits)
  finally show ?thesis .
qed

lemma find_append_last: "P x \<Longrightarrow> find P (xs @ [x]) \<noteq> None"
  by (auto simp: find_None_iff)

lemma mood_text: "str_includes ''mood: tense atmosphere'' ''mood''"
  by (simp add: str_includes_Cons)

lemma lighting_text: "str_includes ''dramatic lighting and color palette'' ''lighting''"
  by (simp add: str_includes_Cons)

lemma sync_first:
  assumes "find (\<lambda>i. str_includes (insight i) ''mood'' \<or> str_includes (insight i) ''atmosphere'')
             (getModuleInsights (addModuleInsight_sv m t r d this) ''sound'') \<noteq> None"
    and "find (\<lambda>i. str_includes (insight i) ''lighting'' \<or> str_includes (insight i) ''color'')
             (getModuleInsights (addModuleInsight_sv m t r d this) ''visual'') \<noteq> None"
  shows "\<exists>rest. crossModuleSuggestions (addModuleInsight_sv m t r d this) =
           \<lparr> type = Sync, modules = [''sound'', ''visual''],
             suggestion = ''Align sound atmosphere with visual mood for cohesive storytelling'',
             rationale = ''Both sound and visual elements suggest similar atmospheric qualities'',
             priority = High \<rparr> # rest"
proof -
  have "findSoundVisualSync (getModuleInsights (addModuleInsight_sv m t r d this) ''sound'')
             (getModuleInsights (addModuleInsight_sv m t r d this) ''visual'') =
        Some (''Align sound atmosphere with visual mood for cohesive storytelling'',
              ''Both sound and visual elements suggest similar atmospheric qualities'', High)"
    using assms by (simp add: findSoundVisualSync_def Let_def)
  then show ?thesis
    by (simp add: add_sv_via_get [of m t r d this] spread_def)
qed

lemma sync_sound_then_visual:
  "\<exists>rest. crossModuleSuggestions
     (addModuleInsight_sv ''visual'' ''dramatic lighting and color palette'' r2 d2
       (addModuleInsight_sv ''sound'' ''mood: tense atmosphere'' r1 d1 this)) =
           \<lparr> type = Sync, modules = [''sound'', ''visual''],
             suggestion = ''Align sound atmosphere with visual mood for cohesive storytelling'',
             rationale = ''Both sound and visual elements suggest similar atmospheric qualities'',
             priority = High \<rparr> # rest"
  by (rule sync_first)
    (simp_all add: getModuleInsights_add_sv find_append_last mood_text lighting_text)

lemma sync_visual_then_sound:
  "\<exists>rest. crossModuleSuggestions
     (addModuleInsight_sv ''sound'' ''mood: tense atmosphere'' r1 d1
       (addModuleInsight_sv ''visual'' ''dramatic lighting and color palette'' r2 d2 this)) =
           \<lparr> type = Sync, modules = [''sound'', ''visual''],
             suggestion = ''Align sound atmosphere with visual mood for cohesive storytelling'',
             rationale = ''Both sound and visual elements suggest similar atmospheric qualities'',
             priority = High \<rparr> # rest"
  by (rule sync_first)
    (simp_all add: getModuleInsights_add_sv find_append_last mood_text lighting_text)

text \<open>
  Claim C4. After an insight for the module sound with the text "mood: tense atmosphere"
  and an insight for the module visual with the text "dramatic lighting and color
  palette" are added, the suggestion list contains a suggestion of type sync with
  priority high. From a fresh service the list is exactly that suggestion; from any
  state, in either order of the two calls and for any relevance and payload, the stored
  list contains it, and so does the list \<^verbatim>\<open>getCrossModuleSuggestions\<close> returns.
\<close>

theorem sound_visual_scenario_sync:
  "crossModuleSuggestions
     (addModuleInsight_sv ''visual'' ''dramatic lighting and color palette'' r2 d2
       (addModuleInsight_sv ''sound'' ''mood: tense atmosphere'' r1 d1 getInstance)) =
     [\<lparr> type = Sync, modules = [''sound'', ''visual''],
        suggestion = ''Align sound atmosphere with visual mood for cohesive storytelling'',
        rationale = ''Both sound and visual elements suggest similar atmospheric qualities'',
        priority = High \<rparr>]
   \<and> list_ex (\<lambda>s. type s = Sync \<and> priority s = High)
       (crossModuleSuggestions
         (addModuleInsight_sv ''visual'' ''dramatic lighting and color palette'' r2 d2
           (addModuleInsight_sv ''sound'' ''mood: tense atmosphere'' r1 d1 this)))
   \<and> list_ex (\<lambda>s. type s = Sync \<and> priority s = High)
       (crossModuleSuggestions
         (addModuleInsight_sv ''sound'' ''mood: tense atmosphere'' r1 d1
           (addModuleInsight_sv ''visual'' ''dramatic lighting and color palette'' r2 d2 this)))
   \<and> list_ex (\<lambda>s. type s = Sync \<and> priority s = High)
       (fst (getCrossModuleSuggestions
         (addModuleInsight_sv ''visual'' ''dramatic lighting and color palette'' r2 d2
           (addModuleInsight_sv ''sound'' ''mood: tense atmosphere'' r1 d1 this))))"
proof (intro conjI)
  show "crossModuleSuggestions
     (addModuleInsight_sv ''visual'' ''dramatic lighting and color palette'' r2 d2
       (addModuleInsight_sv ''sound'' ''mood: tense atmosphere'' r1 d1 getInstance)) =
     [\<lparr> type = Sync, modules = [''sound'', ''visual''],
        suggestion = ''Align sound atmosphere with visual mood for cohesive storytelling'',
        rationale = ''Both sound and visual elements suggest similar atmospheric qualities'',
        priority = High \<rparr>]"
    by (simp add: add_sv_via_get getModuleInsights_add_sv findSoundVisualSync_def
        findSoundVisualEnhancement_def Let_def spread_def str_includes_Cons
        str_includes_Nil_left)
  from sync_sound_then_visual [of r2 d2 r1 d1 this]
  show a: "list_ex (\<lambda>s. type s = Sync \<and> priority s = High)
       (crossModuleSuggestions
         (addModuleInsight_sv ''visual'' ''dramatic lighting and color palette'' r2 d2
           (addModuleInsight_sv ''sound'' ''mood: tense atmosphere'' r1 d1 this)))"
    by auto
  from sync_visual_then_sound [of r1 d1 r2 d2 this]
  show "list_ex (\<lambda>s. type s = Sync \<and> priority s = High)
       (crossModuleSuggestions
         (addModuleInsight_sv ''sound'' ''mood: tense atmosphere'' r1 d1
           (addModuleInsight_sv ''visual'' ''dramatic lighting and color palette'' r2 d2 this)))"
    by auto
  from a show "list_ex (\<lambda>s. type s = Sync \<and> priority s = High)
       (fst (getCrossModuleSuggestions
         (addModuleInsight_sv ''visual'' ''dramatic lighting and color palette'' r2 d2
           (addModuleInsight_sv ''sound'' ''mood: tense atmosphere'' r1 d1 this))))"
    by (simp add: getCrossModuleSuggestions_def Let_def list_ex_iff set_Array_sort)
qed

section \<open>Properties of the sanitizer\<close>

subsection \<open>The long-token pattern\<close>

lemma Many_complete:
  "n \<le> j \<Longrightarrow> j \<le> length s \<Longrightarrow> \<forall>c\<in>set (take j s). P c \<Longrightarrow>
   rmatch as (if j = 0 then p else Some (s ! (j - 1))) (drop j s) \<noteq> None \<Longrightarrow>
   rmatch (Many n P # as) p s \<noteq> None"
proof (induction s arbitrary: n j p)
  case Nil
  then show ?case by simp
next
  case (Cons c cs)
  show ?case
  proof (cases j)
    case 0
    with Cons.prems show ?thesis by (auto split: option.splits)
  next
    case (Suc j')
    with Cons.prems have Pc: "P c" by simp
    have "rmatch (Many (n - 1) P # as) (Some c) cs \<noteq> None"
    proof (rule Cons.IH [of "n - 1" j'])
      show "n - 1 \<le> j'" using Cons.prems(1) Suc by simp
      show "j' \<le> length cs" using Cons.prems(2) Suc by simp
      show "\<forall>c\<in>set (take j' cs). P c" using Cons.prems(3) Suc by simp
      show "rmatch as (if j' = 0 then Some c else Some (cs ! (j' - 1))) (drop j' cs) \<noteq> None"
        using Cons.prems(4) Suc by (cases j') simp_all
    qed
    with Pc show ?thesis by (auto split: option.splits)
  qed
qed

lemma Many_sound:
  "rmatch (Many n P # as) p s = Some k \<Longrightarrow>
   \<exists>j. n \<le> j \<and> j \<le> k \<and> j \<le> length s \<and> (\<forall>c\<in>set (take j s). P c) \<and>
       rmatch as (if j = 0 then p else Some (s ! (j - 1))) (drop j s) = Some (k - j)"
proof (induction s arbitrary: n p k)
  case Nil
  then show ?case by (auto split: if_splits)
next
  case (Cons c cs)
  let ?stop = "n = 0 \<and> rmatch as p (c # cs) = Some k"
  from Cons.prems have "?stop \<or>
      (P c \<and> (\<exists>k'. rmatch (Many (n - 1) P # as) (Some c) cs = Some k' \<and> k = Suc k'))"
    by (auto split: if_splits option.splits)
  then show ?case
  proof
    assume ?stop
    then show ?thesis by (intro exI [of _ 0]) simp
  next
    assume "P c \<and> (\<exists>k'. rmatch (Many (n - 1) P # as) (Some c) cs = Some k' \<and> k = Suc k')"
    then obtain k' where Pc: "P c"
      and m: "rmatch (Many (n - 1) P # as) (Some c) cs = Some k'" and k: "k = Suc k'"
      by blast
    from Cons.IH [OF m] obtain j where j: "n - 1 \<le> j" "j \<le> k'" "j \<le> length cs"
      "\<forall>c\<in>set (take j cs). P c"
      "rmatch as (if j = 0 then Some c else Some (cs ! (j - 1))) (drop j cs) = Some (k' - j)"
      by blast
    have "rmatch as (if Suc j = 0 then p else Some ((c # cs) ! (Suc j - 1))) (drop (Suc j) (c # cs))
          = Some (k - Suc j)"
      using j(5) k by (cases j) simp_all
    with j Pc k show ?thesis
      by (intro exI [of _ "Suc j"]) auto
  qed
qed

lemma rmatch_WordB_only:
  "rmatch [WordB] p s = (if is_word_at p \<noteq> is_word_at (first_char s) then Some 0 else None)"
  by simp

lemma long_token_sound:
  assumes "rmatch re_long_token p s = Some n"
  shows "40 \<le> n \<and> n \<le> length s \<and> boundary_at p s n"
proof -
  from assms have m: "rmatch [Many 40 is_token, WordB] p s = Some n"
    by (simp add: re_long_token_def split: if_splits)
  from Many_sound [OF m] obtain j where j: "40 \<le> j" "j \<le> n" "j \<le> length s"
    "rmatch [WordB] (if j = 0 then p else Some (s ! (j - 1))) (drop j s) = Some (n - j)"
    by blast
  from j(4) have "n - j = 0" and b: "boundary_at p s j"
    by (auto simp: boundary_at_def split: if_splits)
  with j(2) have "n = j" by simp
  with j b show ?thesis by simp
qed

lemma long_token_complete:
  assumes "boundary_at p s 0" and "40 \<le> j" and "j \<le> length s"
    and "\<forall>c\<in>set (take j s). is_token c" and "boundary_at p s j"
  shows "rmatch re_long_token p s \<noteq> None"
proof -
  have "rmatch [WordB] (if j = 0 then p else Some (s ! (j - 1))) (drop j s) \<noteq> None"
    using assms(5) by (simp add: boundary_at_def)
  then have "rmatch (Many 40 is_token # [WordB]) p s \<noteq> None"
    using assms(2,3,4) by (intro Many_complete [of 40 j]) auto
  with assms(1) show ?thesis
    by (simp add: re_long_token_def boundary_at_def)
qed

lemma boundary_at_Cons: "boundary_at p (c # cs) (Suc m) = boundary_at (Some c) cs m"
  by (cases m) (simp_all add: boundary_at_def)

lemma is_word_token: "is_word c \<Longrightarrow> is_token c"
  by (auto simp: is_word_def is_token_def)

lemma word_run_end:
  "\<exists>m. m \<le> length cs \<and> (\<forall>x\<in>set (take m cs). is_token x) \<and>
       (is_word c \<longrightarrow> boundary_at (Some c) cs m)"
proof (intro exI [of _ "length (takeWhile is_word cs)"] conjI impI)
  let ?m = "length (takeWhile is_word cs)"
  show "?m \<le> length cs" by (rule length_takeWhile_le)
  have tk: "take ?m cs = takeWhile is_word cs"
    by (metis append_eq_conv_conj takeWhile_dropWhile_id)
  show "\<forall>x\<in>set (take ?m cs). is_token x"
    unfolding tk by (auto dest: set_takeWhileD is_word_token)
  assume w: "is_word c"
  have dr: "drop ?m cs = dropWhile is_word cs"
    by (metis append_eq_conv_conj takeWhile_dropWhile_id)
  have nxt: "\<not> is_word_at (first_char (dropWhile is_word cs))"
  proof (cases "dropWhile is_word cs")
    case Nil
    have "first_char (dropWhile is_word cs) = first_char []" by (simp only: Nil)
    then show ?thesis by (simp add: first_char_def is_word_at_def)
  next
    case (Cons x xs)
    then have "\<not> is_word x"
      using hd_dropWhile [of is_word cs] by auto
    moreover have "first_char (dropWhile is_word cs) = first_char (x # xs)"
      by (simp only: Cons)
    ultimately show ?thesis by (simp add: first_char_def is_word_at_def)
  qed
  have prev: "is_word_at (if ?m = 0 then Some c else Some (cs ! (?m - 1)))"
  proof (cases "?m = 0")
    case True
    with w show ?thesis by (simp add: is_word_at_def)
  next
    case False
    then have "?m - 1 < length (takeWhile is_word cs)" by simp
    then have "cs ! (?m - 1) \<in> set (takeWhile is_word cs)"
      by (metis nth_mem takeWhile_nth)
    then have "is_word (cs ! (?m - 1))" by (auto dest: set_takeWhileD)
    with False show ?thesis by (simp add: is_word_at_def)
  qed
  show "boundary_at (Some c) cs ?m"
    unfolding boundary_at_def dr using prev nxt by simp
qed

subsection \<open>Runs of token characters in the output\<close>

lemma last_take:
  assumes "0 < n" and "n \<le> length s"
  shows "last (take n s) = s ! (n - 1)"
proof -
  have "take n s \<noteq> []" using assms by auto
  then have "last (take n s) = take n s ! (length (take n s) - 1)"
    by (rule last_conv_nth)
  also have "\<dots> = s ! (n - 1)" using assms by simp
  finally show ?thesis .
qed

lemma run_ok_mono: "run_ok k s \<Longrightarrow> k0 \<le> k \<Longrightarrow> run_ok k0 s"
proof (induction s arbitrary: k k0)
  case Nil
  show ?case by simp
next
  case (Cons c cs)
  show ?case
  proof (cases "is_word c")
    case True
    with Cons.prems have "run_ok (Suc k) cs" "Suc k < 40" by simp_all
    with Cons.IH [of "Suc k" "Suc k0"] Cons.prems(2) True show ?thesis by simp
  next
    case False
    show ?thesis
    proof (cases "is_token c")
      case True
      with False Cons.prems have "run_ok (if k = 0 then 0 else Suc k) cs" by simp
      from Cons.IH [OF this, of "if k0 = 0 then 0 else Suc k0"] Cons.prems(2)
      have "run_ok (if k0 = 0 then 0 else Suc k0) cs" by (simp split: if_splits)
      with True False show ?thesis by simp
    next
      case nt: False
      with False Cons.prems show ?thesis by simp
    qed
  qed
qed

lemma run_ok_prefix: "run_ok k (a @ b) \<Longrightarrow> run_ok k a"
  by (induction a arbitrary: k) (auto split: if_splits)

lemma run_ok_suffix: "run_ok k (a @ b) \<Longrightarrow> run_ok 0 b"
proof (induction a arbitrary: k)
  case Nil
  then show ?case using run_ok_mono [of k b 0] by simp
next
  case (Cons c cs)
  then show ?case by (auto split: if_splits)
qed

lemma open_bracket: "\<not> is_word CHR ''['' \<and> \<not> is_token CHR ''[''"
  by (simp add: is_word_def is_token_def is_digit_def is_upper_def is_lower_def)

lemma close_bracket: "\<not> is_word CHR '']'' \<and> \<not> is_token CHR '']''"
  by (simp add: is_word_def is_token_def is_digit_def is_upper_def is_lower_def)

lemma run_ok_word: "is_word c \<Longrightarrow> run_ok k (c # cs) = (Suc k < 40 \<and> run_ok (Suc k) cs)"
  by simp

lemma run_ok_other: "\<not> is_word c \<Longrightarrow> \<not> is_token c \<Longrightarrow> run_ok k (c # cs) = run_ok 0 cs"
  by simp

lemma upper_word: "is_upper c \<Longrightarrow> is_word c"
  by (simp add: is_word_def)

lemma underscore_word: "is_word CHR ''_''"
  by (simp add: is_word_def)

lemma run_ok_long_token_marker: "run_ok k (''[REDACTED_TOKEN]'' @ x) = run_ok 0 x"
proof -
  have u: "is_upper CHR ''R''" "is_upper CHR ''E''" "is_upper CHR ''D''" "is_upper CHR ''A''"
    "is_upper CHR ''C''" "is_upper CHR ''T''" "is_upper CHR ''O''" "is_upper CHR ''K''"
    "is_upper CHR ''N''"
    by (simp_all add: is_upper_def)
  show ?thesis
    using open_bracket close_bracket
    by (simp add: run_ok_word run_ok_other upper_word u underscore_word del: run_ok.simps)
qed

lemma run_ok_env_marker: "run_ok k (''[ENV_VAR]'' @ x) = run_ok 0 x"
proof -
  have u: "is_upper CHR ''E''" "is_upper CHR ''N''" "is_upper CHR ''V''" "is_upper CHR ''A''"
    "is_upper CHR ''R''"
    by (simp_all add: is_upper_def)
  show ?thesis
    using open_bracket close_bracket
    by (simp add: run_ok_word run_ok_other upper_word u underscore_word del: run_ok.simps)
qed

lemma run_ok_token_end:
  "run_ok k (t @ b) \<Longrightarrow> 0 < k \<Longrightarrow> \<forall>c\<in>set t. is_token c \<Longrightarrow> t \<noteq> [] \<Longrightarrow>
   is_word (last t) \<Longrightarrow> k + length t < 40"
proof (induction t arbitrary: k)
  case Nil
  then show ?case by simp
next
  case (Cons c t)
  show ?case
  proof (cases "t = []")
    case True
    with Cons.prems show ?thesis by simp
  next
    case False
    from Cons.prems have "run_ok (Suc k) (t @ b)"
      by (auto split: if_splits)
    from Cons.IH [OF this] Cons.prems False show ?thesis by simp
  qed
qed

lemma run_ok_no_long_token:
  assumes ok: "run_ok 0 s" and len: "40 \<le> length tok" and tk: "\<forall>c\<in>set tok. is_token c"
    and h: "is_word (hd tok)" and l: "is_word (last tok)"
  shows "\<not> sublist tok s"
proof
  assume "sublist tok s"
  then obtain a b where s: "s = a @ tok @ b" by (auto simp: sublist_def)
  from len obtain c t where tok: "tok = c # t" by (cases tok) auto
  from ok s have "run_ok 0 (tok @ b)" using run_ok_suffix [of 0 a "tok @ b"] by simp
  with tok h have r: "run_ok (Suc 0) (t @ b)" by simp
  from len tok have "t \<noteq> []" by auto
  with run_ok_token_end [OF r] tk l tok have "Suc 0 + length t < 40" by simp
  with len tok show False by simp
qed

text \<open>The scan of the long-token pattern, started inside a run that is fine so far,
  writes a text that is fine.\<close>

lemma long_token_scan:
  "(0 < k \<longrightarrow> (\<forall>m. m \<le> length s \<and> (\<forall>c\<in>set (take m s). is_token c) \<and> boundary_at p s m
                   \<longrightarrow> k + m < 40)) \<Longrightarrow>
   (k = 0 \<longrightarrow> is_word_at p \<longrightarrow> \<not> is_word_at (first_char s)) \<Longrightarrow>
   run_ok k (replace_from re_long_token ''[REDACTED_TOKEN]'' p s)"
proof (induction "length s" arbitrary: s p k rule: less_induct)
  case less
  note past = less.prems(1) and fresh = less.prems(2)
  show ?case
  proof (cases s)
    case Nil
    have "rmatch re_long_token p [] = None"
      by (simp add: re_long_token_def)
    with Nil show ?thesis by simp
  next
    case (Cons c cs)
    show ?thesis
    proof (cases "rmatch re_long_token p s")
      case (Some n)
      from long_token_sound [OF Some] have n: "40 \<le> n" "n \<le> length s" "boundary_at p s n"
        by simp_all
      let ?p' = "Some (last (take n (c # cs)))"
      have lst: "last (take n s) = s ! (n - 1)"
        using n by (intro last_take) simp_all
      have "run_ok 0 (replace_from re_long_token ''[REDACTED_TOKEN]'' ?p' (drop n s))"
      proof (rule less.hyps)
        show "length (drop n s) < length s" using n Cons by simp
        show "0 < (0::nat) \<longrightarrow> (\<forall>m. m \<le> length (drop n s) \<and>
               (\<forall>c\<in>set (take m (drop n s)). is_token c) \<and> boundary_at ?p' (drop n s) m
                   \<longrightarrow> 0 + m < 40)" by simp
        show "(0::nat) = 0 \<longrightarrow> is_word_at ?p' \<longrightarrow> \<not> is_word_at (first_char (drop n s))"
          using n(3) n(1) lst Cons by (auto simp: boundary_at_def)
      qed
      then have "run_ok k (''[REDACTED_TOKEN]'' @
          replace_from re_long_token ''[REDACTED_TOKEN]'' ?p' (drop n s))"
        by (simp only: run_ok_long_token_marker)
      with Some Cons n(1) show ?thesis by simp
    next
      case None
      have out: "replace_from re_long_token ''[REDACTED_TOKEN]'' p s =
                 c # replace_from re_long_token ''[REDACTED_TOKEN]'' (Some c) cs"
        using None Cons by simp
      have shift: "k' + m < 40"
        if "0 < k" "k' = Suc k" "is_token c" "m \<le> length cs" "\<forall>x\<in>set (take m cs). is_token x"
          "boundary_at (Some c) cs m" for k' m
      proof -
        have "Suc m \<le> length s \<and> (\<forall>x\<in>set (take (Suc m) s). is_token x) \<and> boundary_at p s (Suc m)"
          using that Cons by (simp add: boundary_at_Cons)
        with past that(1) have "k + Suc m < 40" by blast
        with that(2) show ?thesis by simp
      qed
      show ?thesis
      proof (cases "is_word c")
        case w: True
        then have tok: "is_token c" by (rule is_word_token)
        from word_run_end [of cs c] w obtain e where e: "e \<le> length cs"
          "\<forall>x\<in>set (take e cs). is_token x" "boundary_at (Some c) cs e" by blast
        have nxt: "Suc k + m < 40"
          if "m \<le> length cs" "\<forall>x\<in>set (take m cs). is_token x" "boundary_at (Some c) cs m" for m
        proof (cases "0 < k")
          case True
          from shift [OF True refl tok that] show ?thesis .
        next
          case False
          then have k0: "k = 0" by simp
          with fresh w Cons have "\<not> is_word_at p"
            by (auto simp: first_char_def is_word_at_def)
          with w Cons have b0: "boundary_at p s 0"
            by (simp add: boundary_at_def first_char_def is_word_at_def)
          have "Suc m < 40"
          proof (rule ccontr)
            assume "\<not> Suc m < 40"
            then have "40 \<le> Suc m" by simp
            moreover have "Suc m \<le> length s" using that(1) Cons by simp
            moreover have "\<forall>x\<in>set (take (Suc m) s). is_token x"
              using that(2) tok Cons by simp
            moreover have "boundary_at p s (Suc m)"
              using that(3) Cons by (simp add: boundary_at_Cons)
            ultimately have "rmatch re_long_token p s \<noteq> None"
              using long_token_complete [OF b0] by blast
            with None show False by simp
          qed
          with k0 show ?thesis by simp
        qed
        from nxt [OF e] have small: "Suc k < 40" by simp
        have "run_ok (Suc k) (replace_from re_long_token ''[REDACTED_TOKEN]'' (Some c) cs)"
        proof (rule less.hyps)
          show "length cs < length s" using Cons by simp
          show "0 < Suc k \<longrightarrow> (\<forall>m. m \<le> length cs \<and> (\<forall>c\<in>set (take m cs). is_token c) \<and>
                  boundary_at (Some c) cs m \<longrightarrow> Suc k + m < 40)"
            using nxt by blast
          show "Suc k = 0 \<longrightarrow> is_word_at (Some c) \<longrightarrow> \<not> is_word_at (first_char cs)" by simp
        qed
        with small w show ?thesis unfolding out by simp
      next
        case nw: False
        show ?thesis
        proof (cases "is_token c \<and> 0 < k")
          case True
          have "run_ok (Suc k) (replace_from re_long_token ''[REDACTED_TOKEN]'' (Some c) cs)"
          proof (rule less.hyps)
            show "length cs < length s" using Cons by simp
            show "0 < Suc k \<longrightarrow> (\<forall>m. m \<le> length cs \<and> (\<forall>c\<in>set (take m cs). is_token c) \<and>
                  boundary_at (Some c) cs m \<longrightarrow> Suc k + m < 40)"
              using shift True by blast
            show "Suc k = 0 \<longrightarrow> is_word_at (Some c) \<longrightarrow> \<not> is_word_at (first_char cs)" by simp
          qed
          with True nw show ?thesis unfolding out by simp
        next
          case False
          have "run_ok 0 (replace_from re_long_token ''[REDACTED_TOKEN]'' (Some c) cs)"
          proof (rule less.hyps)
            show "length cs < length s" using Cons by simp
            show "0 < (0::nat) \<longrightarrow> (\<forall>m. m \<le> length cs \<and> (\<forall>c\<in>set (take m cs). is_token c) \<and>
                  boundary_at (Some c) cs m \<longrightarrow> 0 + m < 40)" by simp
            show "(0::nat) = 0 \<longrightarrow> is_word_at (Some c) \<longrightarrow> \<not> is_word_at (first_char cs)"
              using nw by (simp add: is_word_at_def)
          qed
          with False nw show ?thesis unfolding out by auto
        qed
      qed
    qed
  qed
qed

lemma replace_long_token_run_ok:
  "run_ok 0 (replace re_long_token ''[REDACTED_TOKEN]'' s)"
  unfolding replace_def
  by (rule long_token_scan) (simp_all add: is_word_at_def)

lemma replace_from_run_ok:
  assumes marker: "\<And>k x. run_ok k (r @ x) = run_ok 0 x"
  shows "run_ok k s \<Longrightarrow> run_ok k (replace_from re r p s)"
proof (induction "length s" arbitrary: s p k rule: less_induct)
  case less
  have r_ok: "run_ok k r" using marker [of k "[]"] by simp
  show ?case
  proof (cases s)
    case Nil
    with r_ok show ?thesis by (simp split: option.splits)
  next
    case (Cons c cs)
    have keep: "run_ok k' (c # replace_from re r (Some c) cs)" if "run_ok k' (c # cs)" for k'
    proof -
      have ih: "run_ok j cs \<Longrightarrow> run_ok j (replace_from re r (Some c) cs)" for j
        by (rule less.hyps) (simp_all add: Cons)
      from that show ?thesis by (auto split: if_splits intro: ih)
    qed
    show ?thesis
    proof (cases "rmatch re p s")
      case None
      have "run_ok k (c # cs)" using less.prems by (simp only: Cons)
      from keep [OF this] have "run_ok k (c # replace_from re r (Some c) cs)" .
      moreover have "replace_from re r p s = c # replace_from re r (Some c) cs"
        using None Cons by simp
      ultimately show ?thesis by (simp only:)
    next
      case (Some n)
      show ?thesis
      proof (cases "n = 0")
        case True
        from less.prems have "run_ok 0 s" by (rule run_ok_mono) simp
        then have "run_ok 0 (c # cs)" by (simp only: Cons)
        from keep [OF this] have "run_ok k (r @ c # replace_from re r (Some c) cs)"
          by (simp only: marker)
        with Some True Cons show ?thesis by simp
      next
        case False
        from less.prems have "run_ok 0 (drop n s)"
          using run_ok_suffix [of k "take n s" "drop n s"] by simp
        then have "run_ok 0 (replace_from re r (Some (last (take n s))) (drop n s))"
          by (intro less.hyps) (use False Cons in simp_all)
        then have "run_ok k (r @ replace_from re r (Some (last (take n s))) (drop n s))"
          by (simp only: marker)
        with Some False Cons show ?thesis by simp
      qed
    qed
  qed
qed

lemma split_first: "(case split sep s of [] \<Rightarrow> [] | x # xs \<Rightarrow> x) = takeWhile (\<lambda>c. c \<noteq> sep) s"
  by (induction s) (auto split: list.splits)

lemma sanitizeErrorMessage_first_line:
  "sanitizeErrorMessage e =
     takeWhile (\<lambda>c. c \<noteq> newline)
       (replace re_env_var ''[ENV_VAR]''
         (replace re_long_token ''[REDACTED_TOKEN]''
           (replace re_bearer ''Authorization: Bearer [REDACTED]''
             (replace re_api_key ''api_key: [REDACTED]''
               (replace re_google_key ''[API_KEY]''
                 ((case e of Error message stack \<Rightarrow> message | Thrown s \<Rightarrow> s) @ [newline] @
                  (case e of Error message stack \<Rightarrow> (case stack of Some s \<Rightarrow> s | None \<Rightarrow> [])
                   | Thrown s \<Rightarrow> [])))))))"
  by (simp only: sanitizeErrorMessage_def Let_def split_first)

lemma sanitizeErrorMessage_run_ok: "run_ok 0 (sanitizeErrorMessage e)"
proof -
  let ?s3 = "replace re_bearer ''Authorization: Bearer [REDACTED]''
             (replace re_api_key ''api_key: [REDACTED]''
               (replace re_google_key ''[API_KEY]''
                 ((case e of Error message stack \<Rightarrow> message | Thrown s \<Rightarrow> s) @ [newline] @
                  (case e of Error message stack \<Rightarrow> (case stack of Some s \<Rightarrow> s | None \<Rightarrow> [])
                   | Thrown s \<Rightarrow> []))))"
  let ?s4 = "replace re_long_token ''[REDACTED_TOKEN]'' ?s3"
  let ?s5 = "replace re_env_var ''[ENV_VAR]'' ?s4"
  have "run_ok 0 ?s4" by (rule replace_long_token_run_ok)
  then have "run_ok 0 ?s5"
    unfolding replace_def [of re_env_var]
    by (rule replace_from_run_ok [OF run_ok_env_marker])
  then have "run_ok 0 (takeWhile (\<lambda>c. c \<noteq> newline) ?s5 @ dropWhile (\<lambda>c. c \<noteq> newline) ?s5)"
    by simp
  then have "run_ok 0 (takeWhile (\<lambda>c. c \<noteq> newline) ?s5)"
    by (rule run_ok_prefix)
  then show ?thesis by (simp only: sanitizeErrorMessage_first_line)
qed

lemma sanitizeErrorMessage_no_newline: "newline \<notin> set (sanitizeErrorMessage e)"
  unfolding sanitizeErrorMessage_first_line by (auto dest: set_takeWhileD)

subsection \<open>Markers on the first line\<close>

lemma on_first_line_iff:
  "on_first_line x s \<longleftrightarrow> (\<exists>a b. s = a @ x @ b \<and> newline \<notin> set a \<and> newline \<notin> set x)"
proof
  assume "on_first_line x s"
  then obtain a b where t: "takeWhile (\<lambda>c. c \<noteq> newline) s = a @ x @ b"
    by (auto simp: on_first_line_def str_includes_def sublist_def)
  have "newline \<notin> set (takeWhile (\<lambda>c. c \<noteq> newline) s)"
    by (auto dest: set_takeWhileD)
  with t have "newline \<notin> set a" "newline \<notin> set x" by simp_all
  moreover have "s = a @ x @ (b @ dropWhile (\<lambda>c. c \<noteq> newline) s)"
    using t takeWhile_dropWhile_id [of "\<lambda>c. c \<noteq> newline" s] by (metis append.assoc)
  ultimately show "\<exists>a b. s = a @ x @ b \<and> newline \<notin> set a \<and> newline \<notin> set x" by blast
next
  assume "\<exists>a b. s = a @ x @ b \<and> newline \<notin> set a \<and> newline \<notin> set x"
  then obtain a b where s: "s = a @ x @ b" and n: "newline \<notin> set a" "newline \<notin> set x"
    by blast
  have "takeWhile (\<lambda>c. c \<noteq> newline) ((a @ x) @ b) = (a @ x) @ takeWhile (\<lambda>c. c \<noteq> newline) b"
    by (rule takeWhile_append2) (use n in auto)
  then have "takeWhile (\<lambda>c. c \<noteq> newline) s = a @ x @ takeWhile (\<lambda>c. c \<noteq> newline) b"
    using s by simp
  then show "on_first_line x s"
    by (auto simp: on_first_line_def str_includes_def sublist_def)
qed

lemma on_first_line_part:
  assumes "on_first_line (r1 @ x @ r2) s"
  shows "on_first_line x s"
proof -
  from assms obtain a b where "s = a @ (r1 @ x @ r2) @ b" "newline \<notin> set a"
    "newline \<notin> set (r1 @ x @ r2)"
    unfolding on_first_line_iff by blast
  then have "s = (a @ r1) @ x @ (r2 @ b) \<and> newline \<notin> set (a @ r1) \<and> newline \<notin> set x"
    by simp
  then show ?thesis unfolding on_first_line_iff by blast
qed

text \<open>A prefix of the text is either kept by the scan or holds the start of the first
  match.\<close>

lemma replace_from_prefix:
  "(\<exists>rest. replace_from re r p (u @ b) = u @ rest) \<or>
   (\<exists>u1 u2 rest. u = u1 @ u2 \<and> replace_from re r p (u @ b) = u1 @ r @ rest)"
proof (induction u arbitrary: p)
  case Nil
  show ?case by simp
next
  case (Cons c u)
  show ?case
  proof (cases "rmatch re p (c # u @ b)")
    case None
    then have out: "replace_from re r p ((c # u) @ b) = c # replace_from re r (Some c) (u @ b)"
      by simp
    from Cons.IH [of "Some c"] show ?thesis
    proof
      assume "\<exists>rest. replace_from re r (Some c) (u @ b) = u @ rest"
      then show ?thesis unfolding out by auto
    next
      assume "\<exists>u1 u2 rest. u = u1 @ u2 \<and> replace_from re r (Some c) (u @ b) = u1 @ r @ rest"
      then obtain u1 u2 rest where "u = u1 @ u2"
        "replace_from re r (Some c) (u @ b) = u1 @ r @ rest" by blast
      then have "c # u = (c # u1) @ u2 \<and>
          replace_from re r p ((c # u) @ b) = (c # u1) @ r @ rest"
        unfolding out by simp
      then show ?thesis by blast
    qed
  next
    case (Some n)
    then have "\<exists>rest. replace_from re r p ((c # u) @ b) = [] @ r @ rest"
      by (cases "n = 0") simp_all
    then have "\<exists>rest. c # u = [] @ (c # u) \<and> replace_from re r p ((c # u) @ b) = [] @ r @ rest"
      by simp
    then show ?thesis by blast
  qed
qed

lemma replace_keeps_or_marks:
  assumes x: "on_first_line x s" and r: "newline \<notin> set r"
  shows "on_first_line x (replace re r s) \<or> on_first_line r (replace re r s)"
proof -
  from x obtain a b where s: "s = (a @ x) @ b" and n: "newline \<notin> set a" "newline \<notin> set x"
    unfolding on_first_line_iff by auto
  have rs: "replace re r s = replace_from re r None ((a @ x) @ b)"
    by (simp only: replace_def s)
  from replace_from_prefix [of re r None "a @ x" b] show ?thesis
  proof
    assume "\<exists>rest. replace_from re r None ((a @ x) @ b) = (a @ x) @ rest"
    then obtain rest where "replace re r s = a @ x @ rest"
      using rs by auto
    with n have "on_first_line x (replace re r s)"
      unfolding on_first_line_iff by blast
    then show ?thesis ..
  next
    assume "\<exists>u1 u2 rest. a @ x = u1 @ u2 \<and>
       replace_from re r None ((a @ x) @ b) = u1 @ r @ rest"
    then obtain u1 u2 rest where u: "a @ x = u1 @ u2"
      and out: "replace re r s = u1 @ r @ rest"
      using rs by metis
    have "set u1 \<subseteq> set (a @ x)" unfolding u by simp
    with n have "newline \<notin> set u1" by auto
    with out r have "on_first_line r (replace re r s)"
      unfolding on_first_line_iff by blast
    then show ?thesis ..
  qed
qed

text \<open>What a match is made of.\<close>

lemma rmatch_chars:
  "rmatch as p s = Some n \<Longrightarrow>
   n \<le> length s \<and> (\<forall>c\<in>set (take n s). \<exists>a\<in>set as. atom_accepts a c)"
proof (induction as p s arbitrary: n rule: rmatch.induct)
  case (1 p s)
  then show ?case by simp
next
  case (2 P as p)
  then show ?case by simp
next
  case (3 P as p c cs)
  then show ?case by (fastforce split: if_splits)
next
  case (4 P as p)
  then show ?case by simp
next
  case (5 P as p c cs)
  then show ?case by (fastforce split: if_splits option.splits)
next
  case (6 n' P as p)
  then show ?case by (simp split: if_splits)
next
  case (7 n' P as p c cs)
  then show ?case by (fastforce split: if_splits option.splits)
next
  case (8 as p s)
  then show ?case by (simp split: if_splits)
qed

lemma rmatch_first:
  "rmatch (One P # as) p s = Some n \<Longrightarrow> \<exists>c cs. s = c # cs \<and> P c"
  by (cases s) (auto split: if_splits)

lemma replace_from_no_start:
  assumes st: "\<And>p c cs. c \<in> set x \<Longrightarrow> rmatch re p (c # cs) = None"
  shows "replace_from re r p (x @ b) =
         x @ replace_from re r (if x = [] then p else Some (last x)) b"
  using st
proof (induction x arbitrary: p)
  case Nil
  show ?case by simp
next
  case (Cons c x)
  have none: "rmatch re p (c # x @ b) = None" by (rule Cons.prems) simp
  have "replace_from re r (Some c) (x @ b) =
        x @ replace_from re r (if x = [] then Some c else Some (last x)) b"
    by (rule Cons.IH) (simp add: Cons.prems)
  with none show ?case by simp
qed

lemma replace_from_keeps_marker:
  assumes chars: "\<And>p s n. rmatch re p s = Some n \<Longrightarrow>
                    n \<le> length s \<and> (\<forall>c\<in>set (take n s). acc c)"
    and st: "\<And>p c cs. c \<in> set x \<Longrightarrow> rmatch re p (c # cs) = None"
    and x: "x \<noteq> []" "\<not> acc (hd x)"
    and r: "newline \<notin> set r"
  shows "newline \<notin> set a \<Longrightarrow>
         \<exists>a' rest. replace_from re r p (a @ x @ b) = a' @ x @ rest \<and> newline \<notin> set a'"
proof (induction "length a" arbitrary: a p rule: less_induct)
  case less
  show ?case
  proof (cases a)
    case Nil
    have "replace_from re r p (x @ b) =
          [] @ x @ replace_from re r (if x = [] then p else Some (last x)) b"
      using replace_from_no_start [of x re r p b] st by simp
    with Nil show ?thesis by (metis empty_iff empty_set append_Nil)
  next
    case (Cons c a0)
    have ih0: "\<exists>a' rest. replace_from re r (Some c) (a0 @ x @ b) = a' @ x @ rest \<and>
                 newline \<notin> set a'"
      by (rule less.hyps) (use less.prems Cons in simp_all)
    have cn: "c \<noteq> newline" using less.prems Cons by auto
    show ?thesis
    proof (cases "rmatch re p (a @ x @ b)")
      case None
      then have "replace_from re r p (a @ x @ b) = c # replace_from re r (Some c) (a0 @ x @ b)"
        using Cons by simp
      with ih0 cn obtain a' rest where
        "replace_from re r p (a @ x @ b) = (c # a') @ x @ rest \<and> newline \<notin> set (c # a')"
        by auto
      then show ?thesis by blast
    next
      case (Some n)
      from chars [OF Some] have n: "n \<le> length (a @ x @ b)"
        "\<forall>c\<in>set (take n (a @ x @ b)). acc c" by simp_all
      have na: "n \<le> length a"
      proof (rule ccontr)
        assume "\<not> n \<le> length a"
        then have lt: "length a < n" by simp
        have "(a @ x @ b) ! length a = hd x"
          using x(1) by (simp add: nth_append hd_conv_nth)
        moreover have "(take n (a @ x @ b)) ! length a = (a @ x @ b) ! length a"
          using lt by (rule nth_take)
        moreover have "length a < length (take n (a @ x @ b))"
          using lt n(1) by simp
        ultimately have "hd x \<in> set (take n (a @ x @ b))"
          by (metis nth_mem)
        with n(2) x(2) show False by blast
      qed
      show ?thesis
      proof (cases "n = 0")
        case True
        with Some have "replace_from re r p (a @ x @ b) =
            r @ c # replace_from re r (Some c) (a0 @ x @ b)"
          using Cons by simp
        with ih0 cn r obtain a' rest where
          "replace_from re r p (a @ x @ b) = (r @ c # a') @ x @ rest \<and>
           newline \<notin> set (r @ c # a')"
          by auto
        then show ?thesis by blast
      next
        case False
        let ?p' = "Some (last (take n (a @ x @ b)))"
        have dr: "drop n (a @ x @ b) = drop n a @ x @ b" using na by simp
        have "\<exists>a' rest. replace_from re r ?p' (drop n a @ x @ b) = a' @ x @ rest \<and>
                 newline \<notin> set a'"
        proof (rule less.hyps)
          show "length (drop n a) < length a" using False Cons by simp
          show "newline \<notin> set (drop n a)"
            using less.prems set_drop_subset [of n a] by auto
        qed
        then obtain a' rest where a':
          "replace_from re r ?p' (drop n a @ x @ b) = a' @ x @ rest" "newline \<notin> set a'"
          by blast
        have "replace_from re r p (a @ x @ b) = r @ replace_from re r ?p' (drop n (a @ x @ b))"
          using Some False Cons by simp
        with a' dr r have
          "replace_from re r p (a @ x @ b) = (r @ a') @ x @ rest \<and> newline \<notin> set (r @ a')"
          by simp
        then show ?thesis by blast
      qed
    qed
  qed
qed

lemma env_var_no_start: "c \<noteq> CHR ''p'' \<Longrightarrow> rmatch re_env_var p (c # cs) = None"
  by (simp add: re_env_var_def lit_def)

lemma env_var_chars:
  assumes "rmatch re_env_var p s = Some n"
  shows "n \<le> length s \<and> (\<forall>c\<in>set (take n s). c \<noteq> CHR ''['')"
proof -
  have no: "\<not> atom_accepts a CHR ''[''" if "a \<in> set re_env_var" for a
    using that
    by (auto simp: re_env_var_def lit_def is_upper_underscore_def is_upper_def)
  from rmatch_chars [OF assms] no show ?thesis by blast
qed

lemma replace_env_var_keeps:
  assumes on: "on_first_line x s" and x: "x \<noteq> []" "hd x = CHR ''[''" "CHR ''p'' \<notin> set x"
  shows "on_first_line x (replace re_env_var ''[ENV_VAR]'' s)"
proof -
  from on obtain a b where s: "s = a @ x @ b" and n: "newline \<notin> set a" "newline \<notin> set x"
    unfolding on_first_line_iff by blast
  have r: "newline \<notin> set ''[ENV_VAR]''" by (simp add: newline_def)
  have "\<exists>a' rest. replace_from re_env_var ''[ENV_VAR]'' None (a @ x @ b) = a' @ x @ rest \<and>
          newline \<notin> set a'"
  proof (rule replace_from_keeps_marker [where acc = "\<lambda>c. c \<noteq> CHR ''[''", OF _ _ _ _ r n(1)])
    show "rmatch re_env_var p s = Some n \<Longrightarrow> n \<le> length s \<and> (\<forall>c\<in>set (take n s). c \<noteq> CHR ''['')"
      for p s n by (rule env_var_chars)
    show "c \<in> set x \<Longrightarrow> rmatch re_env_var p (c # cs) = None" for p c cs
      using x(3) by (intro env_var_no_start) auto
    show "x \<noteq> []" by fact
    show "\<not> hd x \<noteq> CHR ''[''" using x(2) by simp
  qed
  then show ?thesis
    unfolding on_first_line_iff replace_def s using n(2) by blast
qed

lemma marked_env_var: "marked s \<Longrightarrow> marked (replace re_env_var ''[ENV_VAR]'' s)"
  unfolding marked_def
  by (elim disjE) (simp_all add: replace_env_var_keeps)

lemma marked_step:
  assumes s: "on_first_line tok s \<or> marked s"
    and r: "newline \<notin> set r"
    and m: "\<exists>r1 r2 x. r = r1 @ x @ r2 \<and> x \<in> {''[API_KEY]'', ''[REDACTED]'', ''[REDACTED_TOKEN]''}"
  shows "on_first_line tok (replace re r s) \<or> marked (replace re r s)"
proof -
  have mr: "marked t" if "on_first_line r t" for t
  proof -
    from m obtain r1 r2 x where rx: "r = r1 @ x @ r2"
      and xin: "x \<in> {''[API_KEY]'', ''[REDACTED]'', ''[REDACTED_TOKEN]''}" by blast
    from that have "on_first_line x t" unfolding rx by (rule on_first_line_part)
    with xin show ?thesis unfolding marked_def by auto
  qed
  have keep: "on_first_line x (replace re r s) \<or> marked (replace re r s)"
    if "on_first_line x s" for x
    using replace_keeps_or_marks [OF that r, of re] mr by blast
  from s show ?thesis
  proof
    assume "on_first_line tok s"
    then show ?thesis by (rule keep)
  next
    assume "marked s"
    then have "marked (replace re r s)"
      unfolding marked_def [of s] using keep unfolding marked_def by blast
    then show ?thesis ..
  qed
qed

lemma token_not_newline: "is_token c \<Longrightarrow> c \<noteq> newline"
  by (auto simp: is_token_def is_digit_def is_upper_def is_lower_def newline_def)

lemma sanitizeErrorMessage_marked:
  assumes len: "40 \<le> length tok" and tk: "list_all is_token tok"
    and h: "is_word (hd tok)" and l: "is_word (last tok)"
    and msg: "(case e of Error message stack \<Rightarrow> message | Thrown s \<Rightarrow> s) = a @ tok @ b"
    and a: "newline \<notin> set a"
  shows "str_includes (sanitizeErrorMessage e) ''[API_KEY]'' \<or>
         str_includes (sanitizeErrorMessage e) ''[REDACTED]'' \<or>
         str_includes (sanitizeErrorMessage e) ''[REDACTED_TOKEN]''"
proof -
  let ?stack = "case e of Error message stack \<Rightarrow> (case stack of Some s \<Rightarrow> s | None \<Rightarrow> [])
                | Thrown s \<Rightarrow> []"
  let ?s0 = "(case e of Error message stack \<Rightarrow> message | Thrown s \<Rightarrow> s) @ [newline] @ ?stack"
  let ?s1 = "replace re_google_key ''[API_KEY]'' ?s0"
  let ?s2 = "replace re_api_key ''api_key: [REDACTED]'' ?s1"
  let ?s3 = "replace re_bearer ''Authorization: Bearer [REDACTED]'' ?s2"
  let ?s4 = "replace re_long_token ''[REDACTED_TOKEN]'' ?s3"
  let ?s5 = "replace re_env_var ''[ENV_VAR]'' ?s4"
  have tk': "\<forall>c\<in>set tok. is_token c" using tk by (simp add: list_all_iff)
  have nt: "newline \<notin> set tok" using tk' token_not_newline by blast
  have "?s0 = a @ tok @ (b @ [newline] @ ?stack)" by (simp add: msg)
  with a nt have "on_first_line tok ?s0" unfolding on_first_line_iff by blast
  then have 0: "on_first_line tok ?s0 \<or> marked ?s0" ..
  have 1: "on_first_line tok ?s1 \<or> marked ?s1"
  proof (rule marked_step [OF 0])
    show "newline \<notin> set ''[API_KEY]''" by (simp add: newline_def)
    have "''[API_KEY]'' = [] @ ''[API_KEY]'' @ []" by simp
    then show "\<exists>r1 r2 x. ''[API_KEY]'' = r1 @ x @ r2 \<and>
        x \<in> {''[API_KEY]'', ''[REDACTED]'', ''[REDACTED_TOKEN]''}" by blast
  qed
  have 2: "on_first_line tok ?s2 \<or> marked ?s2"
  proof (rule marked_step [OF 1])
    show "newline \<notin> set ''api_key: [REDACTED]''" by (simp add: newline_def)
    have "''api_key: [REDACTED]'' = ''api_key: '' @ ''[REDACTED]'' @ []" by simp
    then show "\<exists>r1 r2 x. ''api_key: [REDACTED]'' = r1 @ x @ r2 \<and>
        x \<in> {''[API_KEY]'', ''[REDACTED]'', ''[REDACTED_TOKEN]''}" by blast
  qed
  have 3: "on_first_line tok ?s3 \<or> marked ?s3"
  proof (rule marked_step [OF 2])
    show "newline \<notin> set ''Authorization: Bearer [REDACTED]''" by (simp add: newline_def)
    have "''Authorization: Bearer [REDACTED]'' = ''Authorization: Bearer '' @ ''[REDACTED]'' @ []"
      by simp
    then show "\<exists>r1 r2 x. ''Authorization: Bearer [REDACTED]'' = r1 @ x @ r2 \<and>
        x \<in> {''[API_KEY]'', ''[REDACTED]'', ''[REDACTED_TOKEN]''}" by blast
  qed
  have 4: "on_first_line tok ?s4 \<or> marked ?s4"
  proof (rule marked_step [OF 3])
    show "newline \<notin> set ''[REDACTED_TOKEN]''" by (simp add: newline_def)
    have "''[REDACTED_TOKEN]'' = [] @ ''[REDACTED_TOKEN]'' @ []" by simp
    then show "\<exists>r1 r2 x. ''[REDACTED_TOKEN]'' = r1 @ x @ r2 \<and>
        x \<in> {''[API_KEY]'', ''[REDACTED]'', ''[REDACTED_TOKEN]''}" by blast
  qed
  have "\<not> on_first_line tok ?s4"
  proof
    assume "on_first_line tok ?s4"
    then have sub: "sublist tok (takeWhile (\<lambda>c. c \<noteq> newline) ?s4)"
      by (simp add: on_first_line_def str_includes_def)
    have "run_ok 0 ?s4" by (rule replace_long_token_run_ok)
    then have "run_ok 0 (takeWhile (\<lambda>c. c \<noteq> newline) ?s4 @ dropWhile (\<lambda>c. c \<noteq> newline) ?s4)"
      by simp
    then have "run_ok 0 (takeWhile (\<lambda>c. c \<noteq> newline) ?s4)" by (rule run_ok_prefix)
    from run_ok_no_long_token [OF this len tk' h l] sub show False by blast
  qed
  with 4 have "marked ?s4" by blast
  then have "marked ?s5" by (rule marked_env_var)
  then show ?thesis
    unfolding marked_def on_first_line_def sanitizeErrorMessage_first_line .
qed

section \<open>Claims about the enhanced generative service\<close>

text \<open>
  Claim C1, as the specification states it: whenever the message holds a token of 40 or
  more characters of \<^verbatim>\<open>[0-9A-Za-z\-_]\<close>, the result does not hold the token and holds a
  redaction marker in its place. A token behind the first line break is cut off with its
  marker, so the result holds no marker; and a token that starts with \<^verbatim>\<open>-\<close> has no word
  boundary in front of it, so 40 characters of it stay as they are.
\<close>

theorem sanitizeErrorMessage_second_line_and_dash:
  "sanitizeErrorMessage
     (Error (''fail'' @ [newline] @ ''012345678901234567890123456789012345678901234'') None)
     = ''fail''
   \<and> sanitizeErrorMessage
     (Error ''token -012345678901234567890123456789012345678 end'' None)
     = ''token -012345678901234567890123456789012345678 end''"
  by code_simp

text \<open>
  Claim C1, amended. For every error the result of \<^verbatim>\<open>sanitizeErrorMessage\<close> has no line
  break, and it holds no token of 40 or more characters of \<^verbatim>\<open>[0-9A-Za-z\-_]\<close> that starts
  and ends with a word character \<^verbatim>\<open>[0-9A-Za-z_]\<close>, such as a token of 45 letters and
  digits. When such a token stands on the first line of the message, the result holds one
  of the markers \<^verbatim>\<open>[API_KEY]\<close>, \<^verbatim>\<open>[REDACTED]\<close> and \<^verbatim>\<open>[REDACTED_TOKEN]\<close>.
\<close>

theorem sanitizeErrorMessage_redacts:
  "newline \<notin> set (sanitizeErrorMessage e) \<and>
   (40 \<le> length tok \<and> list_all is_token tok \<and> is_word (hd tok) \<and> is_word (last tok) \<longrightarrow>
      \<not> str_includes (sanitizeErrorMessage e) tok \<and>
      ((e = Error (a @ tok @ b) stack \<or> e = Thrown (a @ tok @ b)) \<and> newline \<notin> set a \<longrightarrow>
         str_includes (sanitizeErrorMessage e) ''[API_KEY]'' \<or>
         str_includes (sanitizeErrorMessage e) ''[REDACTED]'' \<or>
         str_includes (sanitizeErrorMessage e) ''[REDACTED_TOKEN]''))"
proof (intro conjI impI)
  show "newline \<notin> set (sanitizeErrorMessage e)"
    by (rule sanitizeErrorMessage_no_newline)
next
  assume t: "40 \<le> length tok \<and> list_all is_token tok \<and> is_word (hd tok) \<and> is_word (last tok)"
  then have "\<forall>c\<in>set tok. is_token c" by (simp add: list_all_iff)
  with t have "\<not> sublist tok (sanitizeErrorMessage e)"
    by (intro run_ok_no_long_token sanitizeErrorMessage_run_ok) simp_all
  then show "\<not> str_includes (sanitizeErrorMessage e) tok"
    by (simp add: str_includes_def)
next
  assume t: "40 \<le> length tok \<and> list_all is_token tok \<and> is_word (hd tok) \<and> is_word (last tok)"
    and m: "(e = Error (a @ tok @ b) stack \<or> e = Thrown (a @ tok @ b)) \<and> newline \<notin> set a"
  from m have "(case e of Error message stack \<Rightarrow> message | Thrown s \<Rightarrow> s) = a @ tok @ b"
    by auto
  with t m show "str_includes (sanitizeErrorMessage e) ''[API_KEY]'' \<or>
         str_includes (sanitizeErrorMessage e) ''[REDACTED]'' \<or>
         str_includes (sanitizeErrorMessage e) ''[REDACTED_TOKEN]''"
    by (intro sanitizeErrorMessage_marked [of tok e a b]) simp_all
qed

text \<open>
  The scenario of the specification: a message with a token of 45 digits.
\<close>

theorem sanitizeErrorMessage_redacts_witness:
  "40 \<le> length ''012345678901234567890123456789012345678901234''
   \<and> list_all is_token ''012345678901234567890123456789012345678901234''
   \<and> is_word (hd ''012345678901234567890123456789012345678901234'')
   \<and> is_word (last ''012345678901234567890123456789012345678901234'')
   \<and> newline \<notin> set ''token ''
   \<and> \<not> str_includes
        (sanitizeErrorMessage
          (Error (''token '' @ ''012345678901234567890123456789012345678901234'' @ '' end'')
                 (Some ''Error: x'')))
        ''012345678901234567890123456789012345678901234''
   \<and> (str_includes
        (sanitizeErrorMessage
          (Error (''token '' @ ''012345678901234567890123456789012345678901234'' @ '' end'')
                 (Some ''Error: x''))) ''[API_KEY]''
      \<or> str_includes
        (sanitizeErrorMessage
          (Error (''token '' @ ''012345678901234567890123456789012345678901234'' @ '' end'')
                 (Some ''Error: x''))) ''[REDACTED]''
      \<or> str_includes
        (sanitizeErrorMessage
          (Error (''token '' @ ''012345678901234567890123456789012345678901234'' @ '' end'')
                 (Some ''Error: x''))) ''[REDACTED_TOKEN]'')"
proof -
  let ?t = "''012345678901234567890123456789012345678901234''"
  let ?e = "Error (''token '' @ ?t @ '' end'') (Some ''Error: x'')"
  have h: "40 \<le> length ?t \<and> list_all is_token ?t \<and> is_word (hd ?t) \<and> is_word (last ?t)"
    by (simp add: is_token_def is_word_def is_digit_def)
  have n: "newline \<notin> set ''token ''" by (simp add: newline_def)
  have m: "(?e = Error (''token '' @ ?t @ '' end'') (Some ''Error: x'') \<or>
            ?e = Thrown (''token '' @ ?t @ '' end'')) \<and> newline \<notin> set ''token ''"
    using n by simp
  from sanitizeErrorMessage_redacts
    [where e = ?e and tok = ?t and a = "''token ''" and b = "'' end''" and stack = "Some ''Error: x''"]
    h m n
  show ?thesis by blast
qed

text \<open>
  Claim C8 says that a wrapper returns its fixed default whenever the call to the
  provider fails. The wrappers do so for every thrown value that converts to a string.
  For a value whose conversion throws, such as \<^verbatim>\<open>Object.create(null)\<close>, the sanitizer
  called in the \<^verbatim>\<open>catch\<close> block throws a \<^verbatim>\<open>TypeError\<close>, and the wrapper rejects with it
  instead of returning the default.
\<close>

theorem enhanced_wrappers_reject_when_sanitizer_throws:
  "snd (analyzeSoundMoodEnhanced (\<lambda>s v. Inl (NoString TypeError)) sceneDescription visualMood) =
     Inl TypeError
   \<and> snd (generateSoundSuggestionsEnhanced (\<lambda>s m c l. Inl (NoString TypeError)) sceneDescription
            mood cameraMovement lighting) = Inl TypeError
   \<and> snd (generateFoleySuggestionsEnhanced (\<lambda>cs s c. Inl (NoString TypeError)) characters
            sceneDescription cameraMovement) = Inl TypeError
   \<and> snd (analyzeSoundMoodEnhanced (\<lambda>s v. Inl (Converts t)) sceneDescription visualMood) =
       Inr ([''ambient''], ''Using default ambient mood due to analysis error.'')
   \<and> snd (generateSoundSuggestionsEnhanced (\<lambda>s m c l. Inl (Converts t)) sceneDescription
            mood cameraMovement lighting) = Inr ([], ''Sound generation encountered an error.'')
   \<and> snd (generateFoleySuggestionsEnhanced (\<lambda>cs s c. Inl (Converts t)) characters
            sceneDescription cameraMovement) = Inr ([], ''Foley generation encountered an error.'')"
  by (simp add: analyzeSoundMoodEnhanced_def generateSoundSuggestionsEnhanced_def
      generateFoleySuggestionsEnhanced_def sanitizeErrorMessage_call_def)

text \<open>
  Claim C10. \<^verbatim>\<open>getEnhancedServiceStats\<close> reports \<^verbatim>\<open>ttsAvailable\<close> as true on every host, also
  on one without a window or without speech synthesis, where the service object holds no
  synthesizer: the test is on the reference to the service object, which is never null,
  before and after a \<^verbatim>\<open>voiceschanged\<close> event.
\<close>

theorem getEnhancedServiceStats_ttsAvailable:
  "ttsAvailable (getEnhancedServiceStats (ttsService h) now)
   \<and> ttsService NoWindow = Some \<lparr> synth = None, voices = [], listening = False \<rparr>
   \<and> ttsAvailable (getEnhancedServiceStats (ttsService NoWindow) now)
   \<and> ttsService (Window None) = Some \<lparr> synth = None, voices = [], listening = False \<rparr>
   \<and> ttsAvailable (getEnhancedServiceStats (ttsService (Window None)) now)
   \<and> ttsAvailable (getEnhancedServiceStats (map_option (voiceschanged vs) (ttsService h)) now)"
  by (simp add: getEnhancedServiceStats_def ttsService_def new_TextToSpeechService_def)


end
